theory Spec2Isabelle
  imports Complex_Main "HOL-Library.Product_Lexorder"
begin

section \<open>JavaScript values as the services see them\<close>

text \<open>
  A JavaScript string is a sequence of UTF-16 code units; \<open>includes\<close>, \<open>split\<close>,
  \<open>replace\<close> and the character classes of the regular expressions all work on code
  units, so a string is modelled as the list of its code units. ASCII literals are
  written through \<open>ascii\<close>, Korean ones as their code units.

  A JavaScript number is a double: \<open>NaN\<close>, one of the two infinities, or a finite
  double, which is held as the rational number it denotes. Negative zero is not told
  from zero; the services never divide by an amount or print its sign.
\<close>

type_synonym jsstring = "nat list"

datatype jsnumber = NaN | Finite rat | PosInfinity | NegInfinity

text \<open>
  Rounding to the nearest double, ties to even. \<open>bitlen n\<close> is the number of binary
  digits of \<open>n\<close>, \<open>ilog2 a\<close> the exponent \<open>e\<close> with \<open>2^e \<le> a < 2^(e+1)\<close> of a
  positive \<open>a\<close>. A double of exponent \<open>e\<close> is a multiple of \<open>2^(e-52)\<close>, the exponent
  being at least \<open>-1022\<close> (below that the doubles are the multiples of \<open>2^-1074\<close>); a
  result of \<open>2^1024\<close> or more is an infinity.
\<close>

function bitlen :: "int \<Rightarrow> int" where
  "bitlen n = (if n \<le> 0 then 0 else 1 + bitlen (n div 2))"
  by pat_completeness auto

termination
  by (relation "measure nat") auto

declare bitlen.simps [simp del]

definition pow2 :: "int \<Rightarrow> rat" where
  "pow2 e = (if 0 \<le> e then 2 ^ nat e else 1 / 2 ^ nat (- e))"

definition ilog2 :: "rat \<Rightarrow> int" where
  "ilog2 a =
     (let e0 = bitlen (fst (quotient_of a)) - bitlen (snd (quotient_of a))
      in if pow2 e0 \<le> a then e0 else e0 - 1)"

definition roundHalfEven :: "rat \<Rightarrow> int" where
  "roundHalfEven m =
     (let f = \<lfloor>m\<rfloor>; d = m - of_int f
      in if d < 1 / 2 then f else if 1 / 2 < d then f + 1 else if even f then f else f + 1)"

definition roundToDouble :: "rat \<Rightarrow> jsnumber" where
  "roundToDouble x =
     (if x = 0 then Finite 0
      else
        let a = \<bar>x\<bar>;
            e = max (ilog2 a) (- 1022);
            q = pow2 (e - 52);
            r = of_int (roundHalfEven (a / q)) * q
        in if pow2 1024 \<le> r then (if 0 < x then PosInfinity else NegInfinity)
           else Finite (if 0 < x then r else - r))"

text \<open>
  \<open>a + b\<close>, \<open>-a\<close>, \<open>a - b\<close>, \<open>a * b\<close> and \<open>a < b\<close> on numbers: the exact result,
  rounded.
\<close>

fun plusNum :: "jsnumber \<Rightarrow> jsnumber \<Rightarrow> jsnumber" where
  "plusNum (Finite a) (Finite b) = roundToDouble (a + b)"
| "plusNum NaN _ = NaN"
| "plusNum _ NaN = NaN"
| "plusNum PosInfinity NegInfinity = NaN"
| "plusNum NegInfinity PosInfinity = NaN"
| "plusNum PosInfinity _ = PosInfinity"
| "plusNum _ PosInfinity = PosInfinity"
| "plusNum NegInfinity _ = NegInfinity"
| "plusNum _ NegInfinity = NegInfinity"

fun negate :: "jsnumber \<Rightarrow> jsnumber" where
  "negate NaN = NaN"
| "negate (Finite x) = Finite (- x)"
| "negate PosInfinity = NegInfinity"
| "negate NegInfinity = PosInfinity"

definition minusNum :: "jsnumber \<Rightarrow> jsnumber \<Rightarrow> jsnumber" where
  "minusNum a b = plusNum a (negate b)"

definition signedInfinity :: "rat \<Rightarrow> jsnumber" where
  "signedInfinity s = (if s = 0 then NaN else if 0 < s then PosInfinity else NegInfinity)"

fun timesNum :: "jsnumber \<Rightarrow> jsnumber \<Rightarrow> jsnumber" where
  "timesNum (Finite a) (Finite b) = roundToDouble (a * b)"
| "timesNum NaN _ = NaN"
| "timesNum _ NaN = NaN"
| "timesNum (Finite a) PosInfinity = signedInfinity a"
| "timesNum (Finite a) NegInfinity = signedInfinity (- a)"
| "timesNum PosInfinity (Finite b) = signedInfinity b"
| "timesNum NegInfinity (Finite b) = signedInfinity (- b)"
| "timesNum PosInfinity PosInfinity = PosInfinity"
| "timesNum NegInfinity NegInfinity = PosInfinity"
| "timesNum PosInfinity NegInfinity = NegInfinity"
| "timesNum NegInfinity PosInfinity = NegInfinity"

fun lessNum :: "jsnumber \<Rightarrow> jsnumber \<Rightarrow> bool" where
  "lessNum (Finite a) (Finite b) = (a < b)"
| "lessNum NaN _ = False"
| "lessNum _ NaN = False"
| "lessNum NegInfinity NegInfinity = False"
| "lessNum NegInfinity _ = True"
| "lessNum PosInfinity _ = False"
| "lessNum _ PosInfinity = True"
| "lessNum _ NegInfinity = False"

text \<open>\<open>isNaN(x)\<close>, and the truthiness of a number, as \<open>x || 0\<close> tests it.\<close>

definition isNaN :: "jsnumber \<Rightarrow> bool" where
  "isNaN x \<longleftrightarrow> x = NaN"

definition truthyNumber :: "jsnumber \<Rightarrow> bool" where
  "truthyNumber x \<longleftrightarrow> x \<noteq> NaN \<and> x \<noteq> Finite 0"


definition ascii :: "string \<Rightarrow> jsstring" where
  "ascii s = map of_char s"

text \<open>
  \<open>`${n}`\<close> for a natural number \<open>n\<close>: its decimal digits, most significant first.
\<close>

fun natToString :: "nat \<Rightarrow> jsstring" where
  "natToString n = (if n < 10 then [48 + n] else natToString (n div 10) @ [48 + n mod 10])"

declare natToString.simps [simp del]

text \<open>\<open>s.split('-')\<close>, in general \<open>s.split(sep)\<close> for a one-unit separator.\<close>

fun splitOn :: "nat \<Rightarrow> jsstring \<Rightarrow> jsstring list" where
  "splitOn sep [] = [[]]"
| "splitOn sep (c # cs) =
     (if c = sep then [] # splitOn sep cs
      else (case splitOn sep cs of
              [] \<Rightarrow> [[c]]
            | p # ps \<Rightarrow> (c # p) # ps))"

definition isDigit :: "nat \<Rightarrow> bool" where
  "isDigit c \<longleftrightarrow> 48 \<le> c \<and> c \<le> 57"

text \<open>
  \<open>Number(s)\<close> on the pieces of a group key. The empty string converts to \<open>0\<close>, a
  run of decimal digits to its value; \<open>None\<close> stands for every other outcome, which
  a year or month field of the model cannot hold (\<open>NaN\<close>, a fraction, a negative
  number).
\<close>

definition stringToNat :: "jsstring \<Rightarrow> nat option" where
  "stringToNat s =
     (if list_all isDigit s then Some (foldl (\<lambda>acc c. 10 * acc + (c - 48)) 0 s) else None)"

section \<open>CalculationService\<close>

record MonthlyData =
  month :: nat
  year :: nat
  taxExemptAmount :: jsnumber
  taxableAmount :: jsnumber

record ShoppingMallData =
  sm_mallName :: jsstring
  filePath :: jsstring
  data :: "MonthlyData list"

record MonthlyTotal =
  mt_month :: nat
  mt_year :: nat
  taxExempt :: jsnumber
  taxable :: jsnumber
  total :: jsnumber

record YearlyTotal =
  y_taxExempt :: jsnumber
  y_taxable :: jsnumber
  y_total :: jsnumber

record CalculationResult =
  mallName :: jsstring
  monthlyTotals :: "MonthlyTotal list"
  yearlyTotal :: YearlyTotal

text \<open>The group key \<open>`${item.year}-${item.month}`\<close>.\<close>

definition yearMonthKey :: "MonthlyData \<Rightarrow> jsstring" where
  "yearMonthKey item = natToString (year item) @ ascii ''-'' @ natToString (month item)"

text \<open>
  \<open>groupByYearMonth\<close> reduces the records into an object keyed by the string above. The
  keys are not array indices, so the object enumerates them in the order of their first
  insertion: an association list, with \<open>groups[key].push(item)\<close> appending to the
  group that has the key.
\<close>

fun pushGroup ::
  "(jsstring \<times> MonthlyData list) list \<Rightarrow> jsstring \<Rightarrow> MonthlyData \<Rightarrow> (jsstring \<times> MonthlyData list) list"
where
  "pushGroup [] k item = [(k, [item])]"
| "pushGroup ((k', items) # gs) k item =
     (if k' = k then (k', items @ [item]) # gs else (k', items) # pushGroup gs k item)"

definition groupByYearMonth :: "MonthlyData list \<Rightarrow> (jsstring \<times> MonthlyData list) list" where
  "groupByYearMonth ds = foldl (\<lambda>groups item. pushGroup groups (yearMonthKey item) item) [] ds"

text \<open>
  One pass of the \<open>forEach\<close> over \<open>Object.entries(groupedData)\<close>: the key is split at
  \<open>-\<close> and its first two pieces are converted back to numbers, the two amounts are
  summed with \<open>reduce\<close>. The result is \<open>None\<close> when a piece does not convert to a
  natural number.
\<close>

definition entryTotal :: "jsstring \<times> MonthlyData list \<Rightarrow> MonthlyTotal option" where
  "entryTotal e =
     (case map stringToNat (splitOn 45 (fst e)) of
        Some y # Some m # _ \<Rightarrow>
          (let monthlyTaxExempt = foldl (\<lambda>sum item. plusNum sum (taxExemptAmount item)) (Finite 0) (snd e);
               monthlyTaxable = foldl (\<lambda>sum item. plusNum sum (taxableAmount item)) (Finite 0) (snd e)
           in Some \<lparr> mt_month = m, mt_year = y,
                     taxExempt = monthlyTaxExempt, taxable = monthlyTaxable,
                     total = plusNum monthlyTaxExempt monthlyTaxable \<rparr>)
      | _ \<Rightarrow> None)"

text \<open>
  \<open>calculateTotals\<close>. The yearly sums are accumulated over the groups in the order of
  the entries, before the monthly list is sorted; \<open>Array.prototype.sort\<close> is stable and
  its comparator orders by year, then month.
\<close>

definition calculateTotals :: "ShoppingMallData \<Rightarrow> CalculationResult option" where
  "calculateTotals mallData =
     (case those (map entryTotal (groupByYearMonth (data mallData))) of
        None \<Rightarrow> None
      | Some pushed \<Rightarrow>
          (let yearlyTaxExempt = foldl (\<lambda>acc t. plusNum acc (taxExempt t)) (Finite 0) pushed;
               yearlyTaxable = foldl (\<lambda>acc t. plusNum acc (taxable t)) (Finite 0) pushed
           in Some \<lparr> mallName = sm_mallName mallData,
                     monthlyTotals = sort_key (\<lambda>t. (mt_year t, mt_month t)) pushed,
                     yearlyTotal = \<lparr> y_taxExempt = yearlyTaxExempt, y_taxable = yearlyTaxable,
                                     y_total = plusNum yearlyTaxExempt yearlyTaxable \<rparr> \<rparr>))"

text \<open>
  For the statements. The items stored under a key; the sum of an amount over a list as
  \<open>reduce\<close> computes it, from \<open>0\<close> and from left to right; the total of the group of a
  year and month, summed over the records of that year and month in their order; the
  key of a year and month; the values of a list in the order of their first occurrence,
  which is the order in which the groups are entered; and the three records of the
  specification's example.
\<close>

definition itemsOf :: "(jsstring \<times> MonthlyData list) list \<Rightarrow> jsstring \<Rightarrow> MonthlyData list" where
  "itemsOf gs k = (case map_of gs k of None \<Rightarrow> [] | Some xs \<Rightarrow> xs)"

definition sumOf :: "('a \<Rightarrow> jsnumber) \<Rightarrow> 'a list \<Rightarrow> jsnumber" where
  "sumOf f xs = foldl (\<lambda>sum x. plusNum sum (f x)) (Finite 0) xs"

definition inMonth :: "nat \<Rightarrow> nat \<Rightarrow> MonthlyData list \<Rightarrow> MonthlyData list" where
  "inMonth y m ds = filter (\<lambda>d. year d = y \<and> month d = m) ds"

definition groupTotal :: "MonthlyData list \<Rightarrow> nat \<Rightarrow> nat \<Rightarrow> MonthlyTotal" where
  "groupTotal ds y m =
     \<lparr> mt_month = m, mt_year = y,
       taxExempt = sumOf taxExemptAmount (inMonth y m ds),
       taxable = sumOf taxableAmount (inMonth y m ds),
       total = plusNum (sumOf taxExemptAmount (inMonth y m ds)) (sumOf taxableAmount (inMonth y m ds)) \<rparr>"

definition pairKey :: "nat \<times> nat \<Rightarrow> jsstring" where
  "pairKey p = natToString (fst p) @ ascii ''-'' @ natToString (snd p)"

definition addKey :: "'a list \<Rightarrow> 'a \<Rightarrow> 'a list" where
  "addKey ks k = (if k \<in> set ks then ks else ks @ [k])"

definition firstSeen :: "'a list \<Rightarrow> 'a list" where
  "firstSeen xs = foldl addKey [] xs"

definition yearMonths :: "MonthlyData list \<Rightarrow> (nat \<times> nat) list" where
  "yearMonths ds = firstSeen (map (\<lambda>d. (year d, month d)) ds)"

text \<open>
  Amounts in whole currency units: a number is whole when it is a finite integer,
  \<open>intOf\<close> is that integer, and \<open>magnitude\<close> adds up the absolute values of all the
  amounts of a list of records. While the magnitude is at most \<open>2^53\<close> no sum of the
  amounts is rounded.
\<close>

fun whole :: "jsnumber \<Rightarrow> bool" where
  "whole (Finite r) = (of_int \<lfloor>r\<rfloor> = r)"
| "whole _ = False"

fun intOf :: "jsnumber \<Rightarrow> int" where
  "intOf (Finite r) = \<lfloor>r\<rfloor>"
| "intOf _ = 0"

definition magnitude :: "MonthlyData list \<Rightarrow> int" where
  "magnitude ds = (\<Sum>d\<leftarrow>ds. \<bar>intOf (taxExemptAmount d)\<bar> + \<bar>intOf (taxableAmount d)\<bar>)"

definition wholeAmounts :: "MonthlyData list \<Rightarrow> bool" where
  "wholeAmounts ds = list_all (\<lambda>d. whole (taxExemptAmount d) \<and> whole (taxableAmount d)) ds"

definition testMall :: ShoppingMallData where
  "testMall = \<lparr> sm_mallName = ascii ''Test Mall'', filePath = ascii ''/test/path.xlsx'', data =
     [\<lparr> month = 1, year = 2024, taxExemptAmount = Finite 1000000, taxableAmount = Finite 500000 \<rparr>,
      \<lparr> month = 1, year = 2024, taxExemptAmount = Finite 2000000, taxableAmount = Finite 1000000 \<rparr>,
      \<lparr> month = 2, year = 2024, taxExemptAmount = Finite 1500000, taxableAmount = Finite 750000 \<rparr>] \<rparr>"

section \<open>Cells, rows and the arrays that hold them\<close>

text \<open>
  A cell is whatever \<open>sheet_to_json\<close> puts into a row array: nothing (\<open>undefined\<close>, or a
  hole of the array, which every operation used here reads as \<open>undefined\<close>), \<open>null\<close>, a
  boolean, a number or a string.
\<close>

datatype cell = Undefined | Null | Bool bool | Num jsnumber | Str jsstring

text \<open>JavaScript truthiness, as \<open>!cell\<close> and \<open>cell || ''\<close> test it.\<close>

fun truthy :: "cell \<Rightarrow> bool" where
  "truthy Undefined = False"
| "truthy Null = False"
| "truthy (Bool b) = b"
| "truthy (Num n) = truthyNumber n"
| "truthy (Str s) = (s \<noteq> [])"

text \<open>
  \<open>row[c]\<close>: reading past the end of an array yields \<open>undefined\<close>. \<open>row[c] = v\<close>:
  writing past the end extends the array, the cells in between being holes.
\<close>

definition readCell :: "cell list \<Rightarrow> nat \<Rightarrow> cell" where
  "readCell row c = (if c < length row then row ! c else Undefined)"

definition writeCell :: "cell list \<Rightarrow> nat \<Rightarrow> cell \<Rightarrow> cell list" where
  "writeCell row c v =
     (if c < length row then row[c := v]
      else row @ replicate (c - length row) Undefined @ [v])"

section \<open>ExcelService: merged cells\<close>

text \<open>
  \<open>processMergedCells\<close> copies the rows and then assigns into the copies, and one of the
  claims is that the caller's grid is left alone. Row arrays therefore live in a store,
  addressed by position; a grid is the list of the addresses of its rows, and an
  assignment \<open>processedData[r][c] = value\<close> updates the store at the address
  \<open>processedData[r]\<close>.
\<close>

type_synonym store = "cell list list"
type_synonym grid = "nat list"

record merge =
  s_r :: nat
  s_c :: nat
  e_r :: nat
  e_c :: nat

text \<open>The rows of a grid, read out of the store.\<close>

definition rowsOf :: "store \<Rightarrow> grid \<Rightarrow> cell list list" where
  "rowsOf h g = map (\<lambda>a. h ! a) g"

text \<open>\<open>data.map(row => [...row])\<close>: every row is copied into a newly allocated array.\<close>

definition copyRows :: "store \<Rightarrow> grid \<Rightarrow> store \<times> grid" where
  "copyRows h g = (h @ rowsOf h g, [length h ..< length h + length g])"

text \<open>\<open>processedData[r]?.[c]\<close>.\<close>

definition cellAt :: "store \<Rightarrow> grid \<Rightarrow> nat \<Rightarrow> nat \<Rightarrow> cell" where
  "cellAt h g r c = (if r < length g then readCell (h ! (g ! r)) c else Undefined)"

text \<open>
  The body of the inner loop. Its first test, \<open>if (!processedData[r])\<close>, never holds: the
  loop keeps \<open>r\<close> below \<open>processedData.length\<close> and every row of an \<open>any[][]\<close> is an
  array, which is truthy.
\<close>

definition fillCell :: "cell \<Rightarrow> grid \<Rightarrow> store \<Rightarrow> nat \<Rightarrow> nat \<Rightarrow> store" where
  "fillCell value g h r c =
     (if \<not> truthy (readCell (h ! (g ! r)) c)
      then h[g ! r := writeCell (h ! (g ! r)) c value]
      else h)"

text \<open>
  One region: the value of the origin cell is read once, then
  \<open>for (r = s.r; r <= e.r && r < processedData.length; r++)\<close> and
  \<open>for (c = s.c; c <= e.c; c++)\<close>.
\<close>

definition applyMerge :: "grid \<Rightarrow> store \<Rightarrow> merge \<Rightarrow> store" where
  "applyMerge g h m =
     (let value = cellAt h g (s_r m) (s_c m)
      in foldl (\<lambda>h r. foldl (\<lambda>h c. fillCell value g h r c) h [s_c m ..< Suc (e_c m)])
               h [s_r m ..< min (Suc (e_r m)) (length g)])"

definition processMergedCells :: "store \<Rightarrow> grid \<Rightarrow> merge list \<Rightarrow> store \<times> grid" where
  "processMergedCells h dat merges =
     (let (h1, processedData) = copyRows h dat
      in (foldl (applyMerge processedData) h1 merges, processedData))"

text \<open>
  For the statements: a cell lies in the rectangle of a region; two regions share a cell;
  no two regions of a list share a cell (the invariant of the data model); the first
  region of a list that contains a cell; every row address of a grid is allocated.
\<close>

definition inRect :: "merge \<Rightarrow> nat \<Rightarrow> nat \<Rightarrow> bool" where
  "inRect m r c \<longleftrightarrow> s_r m \<le> r \<and> r \<le> e_r m \<and> s_c m \<le> c \<and> c \<le> e_c m"

definition overlap :: "merge \<Rightarrow> merge \<Rightarrow> bool" where
  "overlap m m' \<longleftrightarrow>
     max (s_r m) (s_r m') \<le> min (e_r m) (e_r m') \<and> max (s_c m) (s_c m') \<le> min (e_c m) (e_c m')"

fun nonOverlapping :: "merge list \<Rightarrow> bool" where
  "nonOverlapping [] = True"
| "nonOverlapping (m # ms) = (list_all (\<lambda>m'. \<not> overlap m m') ms \<and> nonOverlapping ms)"

definition regionOf :: "merge list \<Rightarrow> nat \<Rightarrow> nat \<Rightarrow> merge option" where
  "regionOf ms r c = find (\<lambda>m. inRect m r c) ms"

definition allocated :: "store \<Rightarrow> grid \<Rightarrow> bool" where
  "allocated h g \<longleftrightarrow> list_all (\<lambda>a. a < length h) g"

text \<open>
  For the proofs: the inner loop on the row array itself, the row indices a region visits,
  the length a row has after the regions were applied, and a region written in one line.
\<close>

definition fillRow :: "cell \<Rightarrow> cell list \<Rightarrow> nat \<Rightarrow> cell list" where
  "fillRow value row c = (if \<not> truthy (readCell row c) then writeCell row c value else row)"

definition mergeRows :: "grid \<Rightarrow> merge \<Rightarrow> nat list" where
  "mergeRows g m = [s_r m ..< min (Suc (e_r m)) (length g)]"

definition widened :: "merge list \<Rightarrow> nat \<Rightarrow> nat \<Rightarrow> nat" where
  "widened ms r n =
     foldl (\<lambda>n m. if s_r m \<le> r \<and> r \<le> e_r m \<and> s_c m \<le> e_c m then max n (Suc (e_c m)) else n) n ms"

definition region :: "nat \<Rightarrow> nat \<Rightarrow> nat \<Rightarrow> nat \<Rightarrow> merge" where
  "region a b c d = \<lparr> s_r = a, s_c = b, e_r = c, e_c = d \<rparr>"

section \<open>Rounding: where the arithmetic is exact\<close>

lemma bitlen_bounds:
  "0 < n \<Longrightarrow> 1 \<le> bitlen n \<and> 2 ^ nat (bitlen n - 1) \<le> n \<and> n < 2 ^ nat (bitlen n)"
proof (induction n rule: bitlen.induct)
  case (1 n)
  show ?case
  proof (cases "n div 2 = 0")
    case True
    with 1(2) have n: "n = 1" by presburger
    have "bitlen 1 = 1" by (simp add: bitlen.simps [of 1] bitlen.simps [of 0])
    with n show ?thesis by simp
  next
    case False
    with 1(2) have pos: "0 < n div 2" by presburger
    from 1(1) [OF _ pos] 1(2)
    have ih: "1 \<le> bitlen (n div 2)" "2 ^ nat (bitlen (n div 2) - 1) \<le> n div 2"
      "n div 2 < 2 ^ nat (bitlen (n div 2))" by simp_all
    have b: "bitlen n = 1 + bitlen (n div 2)" using 1(2) by (simp add: bitlen.simps [of n])
    have e1: "nat (bitlen n - 1) = Suc (nat (bitlen (n div 2) - 1))" using b ih(1) by simp
    have e2: "nat (bitlen n) = Suc (nat (bitlen (n div 2)))" using b ih(1) by simp
    have "2 * 2 ^ nat (bitlen (n div 2) - 1) \<le> n" using ih(2) by presburger
    moreover have "n < 2 * 2 ^ nat (bitlen (n div 2))" using ih(3) by presburger
    ultimately show ?thesis using b ih(1) e1 e2 by simp
  qed
qed

lemma roundHalfEven_of_int: "roundHalfEven (of_int m) = m"
  by (simp add: roundHalfEven_def)

lemma roundToDouble_nat_aux:
  assumes k: "0 < k" "k \<le> 2 ^ 53"
  shows "ilog2 (of_int k) = bitlen k - 1" "0 \<le> bitlen k - 1" "bitlen k - 1 \<le> 53"
    "\<exists>m. (of_int k :: rat) / pow2 (bitlen k - 1 - 52) = of_int m"
proof -
  from bitlen_bounds [OF k(1)]
  have b: "1 \<le> bitlen k" "2 ^ nat (bitlen k - 1) \<le> k" "k < 2 ^ nat (bitlen k)" by simp_all
  have one: "bitlen 1 = 1" by (simp add: bitlen.simps [of 1] bitlen.simps [of 0])
  have "(2::rat) ^ nat (bitlen k - 1) \<le> of_int k"
    using b(2) by (metis of_int_le_iff of_int_numeral of_int_power)
  then show "ilog2 (of_int k) = bitlen k - 1"
    using b(1) by (simp add: ilog2_def one pow2_def Let_def)
  show "0 \<le> bitlen k - 1" using b(1) by simp
  have "(2::int) ^ nat (bitlen k - 1) \<le> 2 ^ 53" using b(2) k(2) by simp
  then have le: "nat (bitlen k - 1) \<le> 53"
    using power_le_imp_le_exp [of "2::int" "nat (bitlen k - 1)" 53] by simp
  then show "bitlen k - 1 \<le> 53" by simp
  show "\<exists>m. (of_int k :: rat) / pow2 (bitlen k - 1 - 52) = of_int m"
  proof (cases "bitlen k - 1 \<le> 52")
    case True
    then have "pow2 (bitlen k - 1 - 52) = 1 / 2 ^ nat (52 - (bitlen k - 1))"
      by (auto simp add: pow2_def)
    then have "(of_int k :: rat) / pow2 (bitlen k - 1 - 52) = of_int (k * 2 ^ nat (52 - (bitlen k - 1)))"
      by simp
    then show ?thesis by blast
  next
    case False
    with le have e: "bitlen k - 1 = 53" by simp
    with b(2) k(2) have "k = 2 ^ 53" by simp
    then have "(of_int k :: rat) / pow2 (bitlen k - 1 - 52) = of_int (2 ^ 52)"
      using e by (simp add: pow2_def)
    then show ?thesis by blast
  qed
qed

lemma roundToDouble_pos:
  assumes k: "0 < k" "k \<le> 2 ^ 53"
  shows "roundToDouble (of_int k) = Finite (of_int k)" "roundToDouble (- of_int k) = Finite (- of_int k)"
proof -
  note aux = roundToDouble_nat_aux [OF k]
  from aux(4) obtain m where m: "(of_int k :: rat) / pow2 (bitlen k - 1 - 52) = of_int m" by blast
  have q: "pow2 (bitlen k - 1 - 52) \<noteq> 0" by (simp add: pow2_def)
  have r: "of_int m * pow2 (bitlen k - 1 - 52) = (of_int k :: rat)"
    using m q by (simp add: field_simps)
  have "(of_int k :: rat) \<le> 2 ^ 53" using k(2) by (metis of_int_le_iff of_int_numeral of_int_power)
  also have "(2::rat) ^ 53 < 2 ^ 1024" by (simp add: power_strict_increasing_iff)
  finally have small: "\<not> pow2 1024 \<le> (of_int k :: rat)" by (simp add: pow2_def)
  have mx: "max (bitlen k - 1) (- 1022) = bitlen k - 1" using aux(2) by simp
  have abs1: "\<bar>of_int k :: rat\<bar> = of_int k" using k(1) by simp
  show "roundToDouble (of_int k) = Finite (of_int k)"
    using k(1) small by (simp only: roundToDouble_def Let_def abs1 aux(1) mx m roundHalfEven_of_int r) simp
  have abs2: "\<bar>- of_int k :: rat\<bar> = of_int k" using k(1) by simp
  show "roundToDouble (- of_int k) = Finite (- of_int k)"
    using k(1) small by (simp only: roundToDouble_def Let_def abs2 aux(1) mx m roundHalfEven_of_int r) simp
qed

lemma roundToDouble_int:
  assumes "\<bar>n\<bar> \<le> 2 ^ 53"
  shows "roundToDouble (of_int n) = Finite (of_int n)"
proof -
  consider "n = 0" | "0 < n" | "n < 0" by linarith
  then show ?thesis
  proof cases
    case 1
    then show ?thesis by (simp add: roundToDouble_def)
  next
    case 2
    with assms roundToDouble_pos(1) [of n] show ?thesis by simp
  next
    case 3
    with assms roundToDouble_pos(2) [of "- n"] show ?thesis by simp
  qed
qed

lemma roundToDouble_numeral:
  "(numeral n :: int) \<le> 2 ^ 53 \<Longrightarrow> roundToDouble (numeral n) = Finite (numeral n)"
  using roundToDouble_int [of "numeral n"] by simp

lemma roundToDouble_small: "roundToDouble 0 = Finite 0" "roundToDouble 1 = Finite 1"
  using roundToDouble_int [of 0] roundToDouble_int [of 1] by simp_all


section \<open>CalculationService: grouping, sums and order\<close>

lemma natToString_digits: "list_all isDigit (natToString n)"
proof (induction n rule: natToString.induct)
  case (1 n)
  show ?case
  proof (cases "n < 10")
    case True
    then show ?thesis by (subst natToString.simps) (simp add: isDigit_def)
  next
    case False
    have "n mod 10 < 10" by simp
    then have "isDigit (48 + n mod 10)" unfolding isDigit_def by linarith
    with False 1 show ?thesis by (subst natToString.simps) simp
  qed
qed

lemma natToString_no_dash: "45 \<notin> set (natToString n)"
proof
  assume "45 \<in> set (natToString n)"
  with natToString_digits [of n] have "isDigit 45" by (simp add: list_all_iff)
  then show False by (simp add: isDigit_def)
qed

lemma natToString_value: "foldl (\<lambda>acc c. 10 * acc + (c - 48)) 0 (natToString n) = n"
proof (induction n rule: natToString.induct)
  case (1 n)
  show ?case
  proof (cases "n < 10")
    case True
    then show ?thesis by (subst natToString.simps) simp
  next
    case False
    with 1 show ?thesis by (subst natToString.simps) simp
  qed
qed

lemma stringToNat_natToString: "stringToNat (natToString n) = Some n"
  by (simp add: stringToNat_def natToString_digits natToString_value)

lemma splitOn_no_sep: "sep \<notin> set s \<Longrightarrow> splitOn sep s = [s]"
  by (induction s) auto

lemma splitOn_append: "sep \<notin> set a \<Longrightarrow> splitOn sep (a @ sep # b) = a # splitOn sep b"
  by (induction a) auto

lemma split_yearMonthKey:
  "splitOn 45 (yearMonthKey item) = [natToString (year item), natToString (month item)]"
  by (simp add: yearMonthKey_def ascii_def splitOn_append splitOn_no_sep natToString_no_dash)

lemma yearMonthKey_inj:
  "yearMonthKey a = yearMonthKey b \<longleftrightarrow> year a = year b \<and> month a = month b"
proof
  assume "yearMonthKey a = yearMonthKey b"
  then have "map stringToNat (splitOn 45 (yearMonthKey a)) = map stringToNat (splitOn 45 (yearMonthKey b))"
    by simp
  then show "year a = year b \<and> month a = month b"
    by (simp add: split_yearMonthKey stringToNat_natToString)
next
  assume "year a = year b \<and> month a = month b"
  then show "yearMonthKey a = yearMonthKey b" by (simp add: yearMonthKey_def)
qed

lemma pushGroup_keys: "map fst (pushGroup gs k item) = addKey (map fst gs) k"
  by (induction gs k item rule: pushGroup.induct) (auto simp: addKey_def)

lemma pushGroup_key_list:
  "map fst (pushGroup gs k item) = (if k \<in> fst ` set gs then map fst gs else map fst gs @ [k])"
  by (simp add: pushGroup_keys addKey_def)

lemma pushGroup_map_of:
  "map_of (pushGroup gs k item) k' = (if k' = k then Some (itemsOf gs k @ [item]) else map_of gs k')"
  by (induction gs k item rule: pushGroup.induct) (auto simp: itemsOf_def)

lemma pushGroup_itemsOf:
  "itemsOf (pushGroup gs k item) k' = itemsOf gs k' @ (if k' = k then [item] else [])"
  by (simp add: itemsOf_def pushGroup_map_of)

lemma pushGroup_key_set: "fst ` set (pushGroup gs k item) = insert k (fst ` set gs)"
  by (induction gs k item rule: pushGroup.induct) auto

lemma pushGroup_distinct: "distinct (map fst gs) \<Longrightarrow> distinct (map fst (pushGroup gs k item))"
  by (auto simp: pushGroup_key_list)

lemma group_fold_keys:
  "distinct (map fst gs) \<Longrightarrow>
   distinct (map fst (foldl (\<lambda>groups item. pushGroup groups (yearMonthKey item) item) gs ds)) \<and>
   fst ` set (foldl (\<lambda>groups item. pushGroup groups (yearMonthKey item) item) gs ds)
     = fst ` set gs \<union> yearMonthKey ` set ds"
proof (induction ds arbitrary: gs)
  case Nil
  then show ?case by simp
next
  case (Cons d ds)
  let ?g = "pushGroup gs (yearMonthKey d) d"
  have "distinct (map fst ?g)" using Cons.prems by (rule pushGroup_distinct)
  from Cons.IH [OF this] show ?case by (simp add: pushGroup_key_set)
qed

lemma group_fold_items:
  "itemsOf (foldl (\<lambda>groups item. pushGroup groups (yearMonthKey item) item) gs ds) k
     = itemsOf gs k @ filter (\<lambda>d. yearMonthKey d = k) ds"
  by (induction ds arbitrary: gs) (auto simp: pushGroup_itemsOf)

lemma groupByYearMonth_keys:
  "distinct (map fst (groupByYearMonth ds))"
  "fst ` set (groupByYearMonth ds) = yearMonthKey ` set ds"
  using group_fold_keys [of "[]" ds] by (simp_all add: groupByYearMonth_def)

lemma groupByYearMonth_items:
  assumes "(k, items) \<in> set (groupByYearMonth ds)"
  shows "items = filter (\<lambda>d. yearMonthKey d = k) ds"
proof -
  have "map_of (groupByYearMonth ds) k = Some items"
    using assms groupByYearMonth_keys(1) by simp
  then have "itemsOf (groupByYearMonth ds) k = items" by (simp add: itemsOf_def)
  then show ?thesis using group_fold_items [of "[]" ds k]
    by (simp add: groupByYearMonth_def itemsOf_def)
qed

lemma group_fold_order:
  "map fst (foldl (\<lambda>groups item. pushGroup groups (yearMonthKey item) item) gs ds)
     = foldl addKey (map fst gs) (map yearMonthKey ds)"
  by (induction ds arbitrary: gs) (simp_all add: pushGroup_keys)

lemma groupByYearMonth_order: "map fst (groupByYearMonth ds) = firstSeen (map yearMonthKey ds)"
  by (simp add: groupByYearMonth_def firstSeen_def group_fold_order)

lemma addKey_map: "inj f \<Longrightarrow> addKey (map f acc) (f x) = map f (addKey acc x)"
  by (auto simp: addKey_def dest: injD)

lemma addKey_fold_map:
  "inj f \<Longrightarrow> foldl addKey (map f acc) (map f xs) = map f (foldl addKey acc xs)"
  by (induction xs arbitrary: acc) (simp_all add: addKey_map)

lemma firstSeen_map: "inj f \<Longrightarrow> firstSeen (map f xs) = map f (firstSeen xs)"
  using addKey_fold_map [of f "[]" xs] by (simp add: firstSeen_def)

lemma addKey_fold_props:
  "distinct acc \<Longrightarrow>
   distinct (foldl addKey acc xs) \<and> set (foldl addKey acc xs) = set acc \<union> set xs"
proof (induction xs arbitrary: acc)
  case Nil
  then show ?case by simp
next
  case (Cons x xs)
  have "distinct (addKey acc x)" using Cons.prems by (simp add: addKey_def)
  from Cons.IH [OF this] show ?case by (auto simp: addKey_def)
qed

lemma firstSeen_props: "distinct (firstSeen xs)" "set (firstSeen xs) = set xs"
  using addKey_fold_props [of "[]" xs] by (simp_all add: firstSeen_def)

lemma yearMonthKey_pairKey: "yearMonthKey d = pairKey (year d, month d)"
  by (simp add: yearMonthKey_def pairKey_def)

lemma split_pairKey: "splitOn 45 (pairKey p) = [natToString (fst p), natToString (snd p)]"
  by (simp add: pairKey_def ascii_def splitOn_append splitOn_no_sep natToString_no_dash)

lemma pairKey_inj: "inj pairKey"
proof (rule injI)
  fix p q :: "nat \<times> nat"
  assume "pairKey p = pairKey q"
  then have "map stringToNat (splitOn 45 (pairKey p)) = map stringToNat (splitOn 45 (pairKey q))"
    by simp
  then show "p = q"
    by (simp add: split_pairKey stringToNat_natToString prod_eq_iff)
qed

lemma key_is_pairKey: "yearMonthKey d = pairKey p \<longleftrightarrow> year d = fst p \<and> month d = snd p"
  using pairKey_inj [THEN inj_eq, of "(year d, month d)" p]
  by (simp add: yearMonthKey_pairKey prod_eq_iff)

lemma groupByYearMonth_shape:
  "groupByYearMonth ds = map (\<lambda>p. (pairKey p, inMonth (fst p) (snd p) ds)) (yearMonths ds)"
proof -
  let ?gs = "groupByYearMonth ds"
  have "map (\<lambda>e. (fst e, filter (\<lambda>d. yearMonthKey d = fst e) ds)) ?gs = map (\<lambda>e. e) ?gs"
  proof (rule map_cong [OF refl])
    fix e assume "e \<in> set ?gs"
    then have "(fst e, snd e) \<in> set ?gs" by simp
    then have "snd e = filter (\<lambda>d. yearMonthKey d = fst e) ds" by (rule groupByYearMonth_items)
    then show "(fst e, filter (\<lambda>d. yearMonthKey d = fst e) ds) = e" by (simp add: prod_eq_iff)
  qed
  then have "?gs = map (\<lambda>k. (k, filter (\<lambda>d. yearMonthKey d = k) ds)) (map fst ?gs)"
    by (simp add: comp_def)
  also have "map fst ?gs = map pairKey (yearMonths ds)"
  proof -
    have "map yearMonthKey ds = map pairKey (map (\<lambda>d. (year d, month d)) ds)"
      by (simp add: yearMonthKey_pairKey)
    then show ?thesis
      by (simp only: groupByYearMonth_order yearMonths_def firstSeen_map [OF pairKey_inj])
  qed
  finally show ?thesis by (simp add: comp_def key_is_pairKey inMonth_def)
qed

lemma entryTotal_pair:
  "entryTotal (pairKey p, inMonth (fst p) (snd p) ds) = Some (groupTotal ds (fst p) (snd p))"
  by (simp add: entryTotal_def split_pairKey stringToNat_natToString Let_def groupTotal_def sumOf_def)

lemma those_map_Some: "those (map (\<lambda>x. Some (f x)) xs) = Some (map f xs)"
  by (induction xs) simp_all

lemma pushed_totals:
  "those (map entryTotal (groupByYearMonth ds))
     = Some (map (\<lambda>p. groupTotal ds (fst p) (snd p)) (yearMonths ds))"
  by (simp add: groupByYearMonth_shape comp_def entryTotal_pair those_map_Some)

lemma groupTotal_sel:
  "mt_year (groupTotal ds y m) = y" "mt_month (groupTotal ds y m) = m"
  "taxExempt (groupTotal ds y m) = sumOf taxExemptAmount (inMonth y m ds)"
  "taxable (groupTotal ds y m) = sumOf taxableAmount (inMonth y m ds)"
  "total (groupTotal ds y m) = plusNum (taxExempt (groupTotal ds y m)) (taxable (groupTotal ds y m))"
  by (simp_all add: groupTotal_def)

lemma calculateTotals_shape:
  "calculateTotals md = Some
     \<lparr> mallName = sm_mallName md,
       monthlyTotals = sort_key (\<lambda>t. (mt_year t, mt_month t))
                         (map (\<lambda>p. groupTotal (data md) (fst p) (snd p)) (yearMonths (data md))),
       yearlyTotal =
         \<lparr> y_taxExempt = sumOf (\<lambda>p. sumOf taxExemptAmount (inMonth (fst p) (snd p) (data md)))
                            (yearMonths (data md)),
           y_taxable = sumOf (\<lambda>p. sumOf taxableAmount (inMonth (fst p) (snd p) (data md)))
                          (yearMonths (data md)),
           y_total = plusNum
                       (sumOf (\<lambda>p. sumOf taxExemptAmount (inMonth (fst p) (snd p) (data md)))
                          (yearMonths (data md)))
                       (sumOf (\<lambda>p. sumOf taxableAmount (inMonth (fst p) (snd p) (data md)))
                          (yearMonths (data md))) \<rparr> \<rparr>"
  unfolding calculateTotals_def pushed_totals
  by (simp add: Let_def foldl_map groupTotal_sel sumOf_def)


lemma whole_intOf: "whole x \<Longrightarrow> x = Finite (of_int (intOf x))"
  by (cases x) auto

lemma whole_of_int: "whole (Finite (of_int n))" "intOf (Finite (of_int n)) = n"
  by simp_all

lemma plusNum_int:
  "\<bar>a + b\<bar> \<le> 2 ^ 53 \<Longrightarrow> plusNum (Finite (of_int a)) (Finite (of_int b)) = Finite (of_int (a + b))"
  using roundToDouble_int [of "a + b"] by simp

lemma abs_sum_nonneg: "0 \<le> (\<Sum>x\<leftarrow>xs. \<bar>g x :: int\<bar>)"
  by (rule sum_list_nonneg) auto

lemma fold_exact:
  assumes "\<forall>x\<in>set xs. whole (f x)" and "\<bar>a\<bar> + (\<Sum>x\<leftarrow>xs. \<bar>intOf (f x)\<bar>) \<le> 2 ^ 53"
  shows "foldl (\<lambda>s x. plusNum s (f x)) (Finite (of_int a)) xs
           = Finite (of_int (a + (\<Sum>x\<leftarrow>xs. intOf (f x))))"
  using assms
proof (induction xs arbitrary: a)
  case Nil
  then show ?case by simp
next
  case (Cons x xs)
  let ?n = "intOf (f x)"
  have fx: "f x = Finite (of_int ?n)" using Cons.prems(1) by (simp add: whole_intOf)
  have rest: "0 \<le> (\<Sum>y\<leftarrow>xs. \<bar>intOf (f y)\<bar>)" by (rule abs_sum_nonneg)
  have b: "\<bar>a + ?n\<bar> \<le> 2 ^ 53" using Cons.prems(2) rest by simp
  have step: "plusNum (Finite (of_int a)) (f x) = Finite (of_int (a + ?n))"
    using plusNum_int [OF b] fx by simp
  have w: "\<forall>y\<in>set xs. whole (f y)" using Cons.prems(1) by simp
  have b': "\<bar>a + ?n\<bar> + (\<Sum>y\<leftarrow>xs. \<bar>intOf (f y)\<bar>) \<le> 2 ^ 53" using Cons.prems(2) by simp
  from Cons.IH [OF w b'] show ?case by (simp add: step add.assoc)
qed

lemma sumOf_exact:
  assumes "\<forall>x\<in>set xs. whole (f x)" and "(\<Sum>x\<leftarrow>xs. \<bar>intOf (f x)\<bar>) \<le> 2 ^ 53"
  shows "sumOf f xs = Finite (of_int (\<Sum>x\<leftarrow>xs. intOf (f x)))"
  using fold_exact [of xs f 0] assms by (simp add: sumOf_def)

lemma sum_list_filter_le: "(\<Sum>x\<leftarrow>filter P xs. \<bar>g x :: int\<bar>) \<le> (\<Sum>x\<leftarrow>xs. \<bar>g x\<bar>)"
  by (induction xs) auto

lemma sum_list_single:
  "distinct ks \<Longrightarrow> v \<in> set ks \<Longrightarrow> (\<Sum>k\<leftarrow>ks. if v = k then (c::int) else 0) = c"
proof (induction ks)
  case Nil
  then show ?case by simp
next
  case (Cons k ks)
  show ?case
  proof (cases "v = k")
    case True
    then have "v \<notin> set ks" using Cons.prems(1) by auto
    then have "(\<Sum>k\<leftarrow>ks. if v = k then c else 0) = 0"
      by (induction ks) auto
    with True show ?thesis by simp
  next
    case False
    with Cons show ?thesis by auto
  qed
qed

lemma sum_list_partition:
  "distinct ks \<Longrightarrow> p ` set ds \<subseteq> set ks \<Longrightarrow>
   (\<Sum>k\<leftarrow>ks. \<Sum>x\<leftarrow>filter (\<lambda>x. p x = k) ds. (a x :: int)) = (\<Sum>x\<leftarrow>ds. a x)"
proof (induction ds)
  case Nil
  then show ?case by simp
next
  case (Cons x ds)
  have "(\<Sum>k\<leftarrow>ks. \<Sum>y\<leftarrow>filter (\<lambda>y. p y = k) (x # ds). a y)
      = (\<Sum>k\<leftarrow>ks. (if p x = k then a x else 0) + (\<Sum>y\<leftarrow>filter (\<lambda>y. p y = k) ds. a y))"
    by (rule arg_cong [where f = sum_list]) simp
  also have "\<dots> = (\<Sum>k\<leftarrow>ks. if p x = k then a x else 0)
                 + (\<Sum>k\<leftarrow>ks. \<Sum>y\<leftarrow>filter (\<lambda>y. p y = k) ds. a y)"
    by (simp add: sum_list_addf)
  also have "(\<Sum>k\<leftarrow>ks. if p x = k then a x else 0) = a x"
    using Cons.prems by (intro sum_list_single) auto
  also have "(\<Sum>k\<leftarrow>ks. \<Sum>y\<leftarrow>filter (\<lambda>y. p y = k) ds. a y) = (\<Sum>y\<leftarrow>ds. a y)"
    using Cons by simp
  finally show ?case by simp
qed

lemma inMonth_filter: "inMonth (fst p) (snd p) ds = filter (\<lambda>d. (year d, month d) = p) ds"
  by (simp add: inMonth_def prod_eq_iff)

lemma yearMonths_props:
  "distinct (yearMonths ds)" "set (yearMonths ds) = (\<lambda>d. (year d, month d)) ` set ds"
  by (simp_all add: yearMonths_def firstSeen_props)

lemma magnitude_split:
  "magnitude ds = (\<Sum>d\<leftarrow>ds. \<bar>intOf (taxExemptAmount d)\<bar>) + (\<Sum>d\<leftarrow>ds. \<bar>intOf (taxableAmount d)\<bar>)"
  by (simp add: magnitude_def sum_list_addf)

lemma group_exact:
  assumes w: "wholeAmounts ds" and m: "magnitude ds \<le> 2 ^ 53"
  shows "sumOf taxExemptAmount (inMonth y mth ds)
           = Finite (of_int (\<Sum>d\<leftarrow>inMonth y mth ds. intOf (taxExemptAmount d)))"
    and "sumOf taxableAmount (inMonth y mth ds)
           = Finite (of_int (\<Sum>d\<leftarrow>inMonth y mth ds. intOf (taxableAmount d)))"
    and "plusNum (sumOf taxExemptAmount (inMonth y mth ds)) (sumOf taxableAmount (inMonth y mth ds))
           = Finite (of_int (\<Sum>d\<leftarrow>inMonth y mth ds. intOf (taxExemptAmount d) + intOf (taxableAmount d)))"
proof -
  let ?g = "inMonth y mth ds"
  have sub: "set ?g \<subseteq> set ds" by (auto simp: inMonth_def)
  have we: "\<forall>d\<in>set ?g. whole (taxExemptAmount d)" and wt: "\<forall>d\<in>set ?g. whole (taxableAmount d)"
    using w sub by (auto simp: wholeAmounts_def list_all_iff)
  have ne: "0 \<le> (\<Sum>d\<leftarrow>ds. \<bar>intOf (taxExemptAmount d)\<bar>)" and nt: "0 \<le> (\<Sum>d\<leftarrow>ds. \<bar>intOf (taxableAmount d)\<bar>)"
    by (rule abs_sum_nonneg)+
  have le: "(\<Sum>d\<leftarrow>?g. \<bar>intOf (taxExemptAmount d)\<bar>) \<le> (\<Sum>d\<leftarrow>ds. \<bar>intOf (taxExemptAmount d)\<bar>)"
    and lt: "(\<Sum>d\<leftarrow>?g. \<bar>intOf (taxableAmount d)\<bar>) \<le> (\<Sum>d\<leftarrow>ds. \<bar>intOf (taxableAmount d)\<bar>)"
    unfolding inMonth_def by (rule sum_list_filter_le)+
  have be: "(\<Sum>d\<leftarrow>?g. \<bar>intOf (taxExemptAmount d)\<bar>) \<le> 2 ^ 53"
    and bt: "(\<Sum>d\<leftarrow>?g. \<bar>intOf (taxableAmount d)\<bar>) \<le> 2 ^ 53"
    using le lt ne nt m by (simp_all add: magnitude_split)
  show e: "sumOf taxExemptAmount ?g = Finite (of_int (\<Sum>d\<leftarrow>?g. intOf (taxExemptAmount d)))"
    using we be by (rule sumOf_exact)
  show t: "sumOf taxableAmount ?g = Finite (of_int (\<Sum>d\<leftarrow>?g. intOf (taxableAmount d)))"
    using wt bt by (rule sumOf_exact)
  have ae: "\<bar>\<Sum>d\<leftarrow>?g. intOf (taxExemptAmount d)\<bar> \<le> (\<Sum>d\<leftarrow>?g. \<bar>intOf (taxExemptAmount d)\<bar>)"
    using sum_list_abs [of "map (\<lambda>d. intOf (taxExemptAmount d)) ?g"] by (simp add: comp_def)
  have at: "\<bar>\<Sum>d\<leftarrow>?g. intOf (taxableAmount d)\<bar> \<le> (\<Sum>d\<leftarrow>?g. \<bar>intOf (taxableAmount d)\<bar>)"
    using sum_list_abs [of "map (\<lambda>d. intOf (taxableAmount d)) ?g"] by (simp add: comp_def)
  have "\<bar>(\<Sum>d\<leftarrow>?g. intOf (taxExemptAmount d)) + (\<Sum>d\<leftarrow>?g. intOf (taxableAmount d))\<bar> \<le> 2 ^ 53"
    using ae at le lt m by (simp add: magnitude_split)
  from plusNum_int [OF this] show "plusNum (sumOf taxExemptAmount ?g) (sumOf taxableAmount ?g)
           = Finite (of_int (\<Sum>d\<leftarrow>?g. intOf (taxExemptAmount d) + intOf (taxableAmount d)))"
    by (simp add: e t sum_list_addf)
qed

lemma year_exact_one:
  assumes g: "\<And>p. sumOf f (inMonth (fst p) (snd p) ds) = Finite (of_int (\<Sum>d\<leftarrow>inMonth (fst p) (snd p) ds. intOf (f d)))"
    and m: "(\<Sum>d\<leftarrow>ds. \<bar>intOf (f d)\<bar>) \<le> 2 ^ 53"
  shows "sumOf (\<lambda>p. sumOf f (inMonth (fst p) (snd p) ds)) (yearMonths ds)
           = Finite (of_int (\<Sum>d\<leftarrow>ds. intOf (f d)))"
proof -
  let ?ks = "yearMonths ds"
  let ?P = "\<lambda>d :: MonthlyData. (year d, month d)"
  let ?F = "\<lambda>p. sumOf f (inMonth (fst p) (snd p) ds)"
  have d: "distinct ?ks" and s: "?P ` set ds \<subseteq> set ?ks" by (simp_all add: yearMonths_props)
  have F: "\<And>p. ?F p = Finite (of_int (\<Sum>d\<leftarrow>filter (\<lambda>d. ?P d = p) ds. intOf (f d)))"
    using g by (simp add: inMonth_filter)
  have w: "\<forall>p\<in>set ?ks. whole (?F p)" by (simp add: F)
  have "(\<Sum>p\<leftarrow>?ks. \<bar>intOf (?F p)\<bar>)
        = (\<Sum>p\<leftarrow>?ks. \<bar>\<Sum>d\<leftarrow>filter (\<lambda>d. ?P d = p) ds. intOf (f d)\<bar>)"
    by (simp add: F)
  also have "\<dots> \<le> (\<Sum>p\<leftarrow>?ks. \<Sum>d\<leftarrow>filter (\<lambda>d. ?P d = p) ds. \<bar>intOf (f d)\<bar>)"
  proof (rule sum_list_mono)
    fix p
    show "\<bar>\<Sum>d\<leftarrow>filter (\<lambda>d. ?P d = p) ds. intOf (f d)\<bar>
            \<le> (\<Sum>d\<leftarrow>filter (\<lambda>d. ?P d = p) ds. \<bar>intOf (f d)\<bar>)"
      using sum_list_abs [of "map (\<lambda>d. intOf (f d)) (filter (\<lambda>d. ?P d = p) ds)"]
      by (simp add: comp_def)
  qed
  also have "\<dots> = (\<Sum>d\<leftarrow>ds. \<bar>intOf (f d)\<bar>)"
    using d s by (rule sum_list_partition)
  finally have b: "(\<Sum>p\<leftarrow>?ks. \<bar>intOf (?F p)\<bar>) \<le> 2 ^ 53" using m by simp
  have "sumOf ?F ?ks = Finite (of_int (\<Sum>p\<leftarrow>?ks. intOf (?F p)))"
    using w b by (rule sumOf_exact)
  also have "(\<Sum>p\<leftarrow>?ks. intOf (?F p)) = (\<Sum>p\<leftarrow>?ks. \<Sum>d\<leftarrow>filter (\<lambda>d. ?P d = p) ds. intOf (f d))"
    by (simp add: F)
  also have "\<dots> = (\<Sum>d\<leftarrow>ds. intOf (f d))"
    using d s by (rule sum_list_partition)
  finally show ?thesis .
qed

lemma year_exact:
  assumes w: "wholeAmounts ds" and m: "magnitude ds \<le> 2 ^ 53"
  shows "sumOf (\<lambda>p. sumOf taxExemptAmount (inMonth (fst p) (snd p) ds)) (yearMonths ds)
           = Finite (of_int (\<Sum>d\<leftarrow>ds. intOf (taxExemptAmount d)))"
    and "sumOf (\<lambda>p. sumOf taxableAmount (inMonth (fst p) (snd p) ds)) (yearMonths ds)
           = Finite (of_int (\<Sum>d\<leftarrow>ds. intOf (taxableAmount d)))"
    and "plusNum (Finite (of_int (\<Sum>d\<leftarrow>ds. intOf (taxExemptAmount d))))
                 (Finite (of_int (\<Sum>d\<leftarrow>ds. intOf (taxableAmount d))))
           = Finite (of_int (\<Sum>d\<leftarrow>ds. intOf (taxExemptAmount d) + intOf (taxableAmount d)))"
proof -
  have ne: "0 \<le> (\<Sum>d\<leftarrow>ds. \<bar>intOf (taxExemptAmount d)\<bar>)" and nt: "0 \<le> (\<Sum>d\<leftarrow>ds. \<bar>intOf (taxableAmount d)\<bar>)"
    by (rule abs_sum_nonneg)+
  have be: "(\<Sum>d\<leftarrow>ds. \<bar>intOf (taxExemptAmount d)\<bar>) \<le> 2 ^ 53"
    and bt: "(\<Sum>d\<leftarrow>ds. \<bar>intOf (taxableAmount d)\<bar>) \<le> 2 ^ 53"
    using ne nt m by (simp_all add: magnitude_split)
  show "sumOf (\<lambda>p. sumOf taxExemptAmount (inMonth (fst p) (snd p) ds)) (yearMonths ds)
           = Finite (of_int (\<Sum>d\<leftarrow>ds. intOf (taxExemptAmount d)))"
    using group_exact(1) [OF w m] be by (rule year_exact_one)
  show "sumOf (\<lambda>p. sumOf taxableAmount (inMonth (fst p) (snd p) ds)) (yearMonths ds)
           = Finite (of_int (\<Sum>d\<leftarrow>ds. intOf (taxableAmount d)))"
    using group_exact(2) [OF w m] bt by (rule year_exact_one)
  have ae: "\<bar>\<Sum>d\<leftarrow>ds. intOf (taxExemptAmount d)\<bar> \<le> (\<Sum>d\<leftarrow>ds. \<bar>intOf (taxExemptAmount d)\<bar>)"
    using sum_list_abs [of "map (\<lambda>d. intOf (taxExemptAmount d)) ds"] by (simp add: comp_def)
  have at: "\<bar>\<Sum>d\<leftarrow>ds. intOf (taxableAmount d)\<bar> \<le> (\<Sum>d\<leftarrow>ds. \<bar>intOf (taxableAmount d)\<bar>)"
    using sum_list_abs [of "map (\<lambda>d. intOf (taxableAmount d)) ds"] by (simp add: comp_def)
  have "\<bar>(\<Sum>d\<leftarrow>ds. intOf (taxExemptAmount d)) + (\<Sum>d\<leftarrow>ds. intOf (taxableAmount d))\<bar> \<le> 2 ^ 53"
    using ae at m by (simp add: magnitude_split)
  from plusNum_int [OF this]
  show "plusNum (Finite (of_int (\<Sum>d\<leftarrow>ds. intOf (taxExemptAmount d))))
                 (Finite (of_int (\<Sum>d\<leftarrow>ds. intOf (taxableAmount d))))
           = Finite (of_int (\<Sum>d\<leftarrow>ds. intOf (taxExemptAmount d) + intOf (taxableAmount d)))"
    by (simp add: sum_list_addf)
qed

lemma totals_partition:
  "(\<Sum>p\<leftarrow>yearMonths ds. \<Sum>d\<leftarrow>inMonth (fst p) (snd p) ds. (a d :: int)) = (\<Sum>d\<leftarrow>ds. a d)"
  using sum_list_partition [of "yearMonths ds" "\<lambda>d. (year d, month d)" ds a]
  by (simp add: yearMonths_props inMonth_filter)


lemma natToString_small: "natToString 2024 = [50, 48, 50, 52]" "natToString (Suc 0) = [49]" "natToString 2 = [50]"
  by (simp_all add: natToString.simps)

lemma groups_testMall:
  "groupByYearMonth (data testMall) =
     [([50, 48, 50, 52, 45, 49],
       [\<lparr> month = 1, year = 2024, taxExemptAmount = Finite 1000000, taxableAmount = Finite 500000 \<rparr>,
        \<lparr> month = 1, year = 2024, taxExemptAmount = Finite 2000000, taxableAmount = Finite 1000000 \<rparr>]),
      ([50, 48, 50, 52, 45, 50],
       [\<lparr> month = 2, year = 2024, taxExemptAmount = Finite 1500000, taxableAmount = Finite 750000 \<rparr>])]"
  by (simp add: testMall_def groupByYearMonth_def yearMonthKey_def natToString_small ascii_def)

lemma entries_testMall:
  "map entryTotal (groupByYearMonth (data testMall)) =
     [Some \<lparr> mt_month = 1, mt_year = 2024, taxExempt = Finite 3000000, taxable = Finite 1500000, total = Finite 4500000 \<rparr>,
      Some \<lparr> mt_month = 2, mt_year = 2024, taxExempt = Finite 1500000, taxable = Finite 750000, total = Finite 2250000 \<rparr>]"
  unfolding groups_testMall
  by (simp add: entryTotal_def stringToNat_def isDigit_def Let_def roundToDouble_numeral)

lemma calculateTotals_testMall:
  "calculateTotals testMall = Some
     \<lparr> mallName = ascii ''Test Mall'',
       monthlyTotals =
         [\<lparr> mt_month = 1, mt_year = 2024, taxExempt = Finite 3000000, taxable = Finite 1500000, total = Finite 4500000 \<rparr>,
          \<lparr> mt_month = 2, mt_year = 2024, taxExempt = Finite 1500000, taxable = Finite 750000, total = Finite 2250000 \<rparr>],
       yearlyTotal = \<lparr> y_taxExempt = Finite 4500000, y_taxable = Finite 2250000, y_total = Finite 6750000 \<rparr> \<rparr>"
  unfolding calculateTotals_def entries_testMall
  by (simp add: testMall_def Let_def less_eq_prod_def roundToDouble_numeral)

text \<open>
  Claim C4, as amended. \<open>calculateTotals\<close> always returns a result. Its monthly list is
  sorted ascending by year, then month, whatever the order of the records, and has one
  entry for each (year, month) that occurs among the records and no other. The
  tax-exempt and the taxable amount of an entry are the sums over the records of that
  year and month, added from \<open>0\<close> in the order of the records with the addition of
  doubles, and its total is the sum of the two. The yearly tax-exempt and taxable totals
  are the sums of the monthly ones, added in the order in which the months first occur
  among the records, and the yearly total is the sum of the two. When all amounts are
  whole numbers whose absolute values add up to at most \<open>2^53\<close>, no addition rounds:
  every one of these sums is the exact sum of the amounts concerned, and the yearly total
  is the sum of the monthly totals. On the three records of the example, January 2024 is
  (3000000, 1500000, 4500000) and the yearly total is (4500000, 2250000, 6750000).
\<close>

theorem calculateTotals_groups_sums_sorted:
  "\<exists>res. calculateTotals md = Some res
      \<and> mallName res = sm_mallName md
      \<and> sorted (map (\<lambda>t. (mt_year t, mt_month t)) (monthlyTotals res))
      \<and> distinct (map (\<lambda>t. (mt_year t, mt_month t)) (monthlyTotals res))
      \<and> (\<lambda>t. (mt_year t, mt_month t)) ` set (monthlyTotals res)
            = (\<lambda>d. (year d, month d)) ` set (data md)
      \<and> (\<forall>t\<in>set (monthlyTotals res).
            taxExempt t = sumOf taxExemptAmount (inMonth (mt_year t) (mt_month t) (data md))
          \<and> taxable t = sumOf taxableAmount (inMonth (mt_year t) (mt_month t) (data md))
          \<and> total t = plusNum (taxExempt t) (taxable t))
      \<and> y_taxExempt (yearlyTotal res)
          = sumOf (\<lambda>(y, m). sumOf taxExemptAmount (inMonth y m (data md))) (yearMonths (data md))
      \<and> y_taxable (yearlyTotal res)
          = sumOf (\<lambda>(y, m). sumOf taxableAmount (inMonth y m (data md))) (yearMonths (data md))
      \<and> y_total (yearlyTotal res)
          = plusNum (y_taxExempt (yearlyTotal res)) (y_taxable (yearlyTotal res))
      \<and> (wholeAmounts (data md) \<and> magnitude (data md) \<le> 2 ^ 53 \<longrightarrow>
            (\<forall>t\<in>set (monthlyTotals res).
               taxExempt t = Finite (of_int (\<Sum>d\<leftarrow>inMonth (mt_year t) (mt_month t) (data md).
                                               intOf (taxExemptAmount d)))
             \<and> taxable t = Finite (of_int (\<Sum>d\<leftarrow>inMonth (mt_year t) (mt_month t) (data md).
                                               intOf (taxableAmount d)))
             \<and> total t = Finite (of_int (\<Sum>d\<leftarrow>inMonth (mt_year t) (mt_month t) (data md).
                                               intOf (taxExemptAmount d) + intOf (taxableAmount d))))
          \<and> y_taxExempt (yearlyTotal res) = Finite (of_int (\<Sum>d\<leftarrow>data md. intOf (taxExemptAmount d)))
          \<and> y_taxable (yearlyTotal res) = Finite (of_int (\<Sum>d\<leftarrow>data md. intOf (taxableAmount d)))
          \<and> y_total (yearlyTotal res)
              = Finite (of_int (\<Sum>d\<leftarrow>data md. intOf (taxExemptAmount d) + intOf (taxableAmount d)))
          \<and> y_total (yearlyTotal res) = Finite (of_int (\<Sum>t\<leftarrow>monthlyTotals res. intOf (total t))))
      \<and> calculateTotals testMall = Some
          \<lparr> mallName = ascii ''Test Mall'',
            monthlyTotals =
              [\<lparr> mt_month = 1, mt_year = 2024, taxExempt = Finite 3000000, taxable = Finite 1500000, total = Finite 4500000 \<rparr>,
               \<lparr> mt_month = 2, mt_year = 2024, taxExempt = Finite 1500000, taxable = Finite 750000, total = Finite 2250000 \<rparr>],
            yearlyTotal = \<lparr> y_taxExempt = Finite 4500000, y_taxable = Finite 2250000, y_total = Finite 6750000 \<rparr> \<rparr>"
proof -
  let ?ds = "data md"
  let ?K = "\<lambda>t. (mt_year t, mt_month t)"
  let ?G = "\<lambda>p. groupTotal ?ds (fst p) (snd p)"
  let ?ks = "yearMonths ?ds"
  let ?pushed = "map ?G ?ks"
  let ?ms = "sort_key ?K ?pushed"
  let ?yE = "sumOf (\<lambda>p. sumOf taxExemptAmount (inMonth (fst p) (snd p) ?ds)) ?ks"
  let ?yT = "sumOf (\<lambda>p. sumOf taxableAmount (inMonth (fst p) (snd p) ?ds)) ?ks"
  let ?res = "\<lparr> mallName = sm_mallName md, monthlyTotals = ?ms,
            yearlyTotal = \<lparr> y_taxExempt = ?yE, y_taxable = ?yT, y_total = plusNum ?yE ?yT \<rparr> \<rparr>"
  have eq: "calculateTotals md = Some ?res" by (rule calculateTotals_shape)
  have keys: "map ?K ?pushed = ?ks" by (simp add: groupTotal_sel comp_def)
  have dk: "distinct (map ?K ?pushed)" unfolding keys by (rule yearMonths_props)
  then have dp: "distinct ?pushed" by (rule distinct_map [THEN iffD1, THEN conjunct1])
  have inj: "inj_on ?K (set ?pushed)" using dk by (rule distinct_map [THEN iffD1, THEN conjunct2])
  have c1: "sorted (map ?K ?ms)" by (rule sorted_sort_key)
  have c2: "distinct (map ?K ?ms)" using dp inj by (simp add: distinct_map)
  have "?K ` set ?pushed = set (map ?K ?pushed)" by (rule set_map [symmetric])
  also have "\<dots> = (\<lambda>d. (year d, month d)) ` set ?ds" unfolding keys by (rule yearMonths_props)
  finally have c3: "?K ` set ?ms = (\<lambda>d. (year d, month d)) ` set ?ds" by simp
  have mem: "\<And>t. t \<in> set ?ms \<Longrightarrow> \<exists>p. t = ?G p"
  proof -
    fix t assume "t \<in> set ?ms"
    then have "t \<in> set ?pushed" by simp
    then show "\<exists>p. t = ?G p" by (auto simp: image_iff)
  qed
  have c4: "\<forall>t\<in>set ?ms.
            taxExempt t = sumOf taxExemptAmount (inMonth (mt_year t) (mt_month t) ?ds)
          \<and> taxable t = sumOf taxableAmount (inMonth (mt_year t) (mt_month t) ?ds)
          \<and> total t = plusNum (taxExempt t) (taxable t)"
  proof
    fix t assume "t \<in> set ?ms"
    from mem [OF this] obtain p where "t = ?G p" by (elim exE)
    then show "taxExempt t = sumOf taxExemptAmount (inMonth (mt_year t) (mt_month t) ?ds)
          \<and> taxable t = sumOf taxableAmount (inMonth (mt_year t) (mt_month t) ?ds)
          \<and> total t = plusNum (taxExempt t) (taxable t)"
      by (simp add: groupTotal_sel)
  qed
  have beta: "\<And>f :: nat \<Rightarrow> nat \<Rightarrow> jsnumber. (\<lambda>(y, m). f y m) = (\<lambda>p. f (fst p) (snd p))"
    by (rule ext) (simp add: case_prod_beta)
  have c5: "y_taxExempt (yearlyTotal ?res)
          = sumOf (\<lambda>(y, m). sumOf taxExemptAmount (inMonth y m ?ds)) ?ks"
    by (simp add: beta)
  have c6: "y_taxable (yearlyTotal ?res)
          = sumOf (\<lambda>(y, m). sumOf taxableAmount (inMonth y m ?ds)) ?ks"
    by (simp add: beta)
  have c7: "y_total (yearlyTotal ?res)
          = plusNum (y_taxExempt (yearlyTotal ?res)) (y_taxable (yearlyTotal ?res))"
    by simp
  have c8: "wholeAmounts ?ds \<and> magnitude ?ds \<le> 2 ^ 53 \<longrightarrow>
            (\<forall>t\<in>set (monthlyTotals ?res).
               taxExempt t = Finite (of_int (\<Sum>d\<leftarrow>inMonth (mt_year t) (mt_month t) ?ds.
                                               intOf (taxExemptAmount d)))
             \<and> taxable t = Finite (of_int (\<Sum>d\<leftarrow>inMonth (mt_year t) (mt_month t) ?ds.
                                               intOf (taxableAmount d)))
             \<and> total t = Finite (of_int (\<Sum>d\<leftarrow>inMonth (mt_year t) (mt_month t) ?ds.
                                               intOf (taxExemptAmount d) + intOf (taxableAmount d))))
          \<and> y_taxExempt (yearlyTotal ?res) = Finite (of_int (\<Sum>d\<leftarrow>?ds. intOf (taxExemptAmount d)))
          \<and> y_taxable (yearlyTotal ?res) = Finite (of_int (\<Sum>d\<leftarrow>?ds. intOf (taxableAmount d)))
          \<and> y_total (yearlyTotal ?res)
              = Finite (of_int (\<Sum>d\<leftarrow>?ds. intOf (taxExemptAmount d) + intOf (taxableAmount d)))
          \<and> y_total (yearlyTotal ?res) = Finite (of_int (\<Sum>t\<leftarrow>monthlyTotals ?res. intOf (total t)))"
  proof
    assume "wholeAmounts ?ds \<and> magnitude ?ds \<le> 2 ^ 53"
    then have w: "wholeAmounts ?ds" and m: "magnitude ?ds \<le> 2 ^ 53" by simp_all
    note g = group_exact [OF w m]
    note y = year_exact [OF w m]
    have tot: "\<And>p. total (?G p)
        = Finite (of_int (\<Sum>d\<leftarrow>inMonth (fst p) (snd p) ?ds. intOf (taxExemptAmount d) + intOf (taxableAmount d)))"
      by (simp add: groupTotal_def g(3))
    have e1: "\<forall>t\<in>set (monthlyTotals ?res).
               taxExempt t = Finite (of_int (\<Sum>d\<leftarrow>inMonth (mt_year t) (mt_month t) ?ds.
                                               intOf (taxExemptAmount d)))
             \<and> taxable t = Finite (of_int (\<Sum>d\<leftarrow>inMonth (mt_year t) (mt_month t) ?ds.
                                               intOf (taxableAmount d)))
             \<and> total t = Finite (of_int (\<Sum>d\<leftarrow>inMonth (mt_year t) (mt_month t) ?ds.
                                               intOf (taxExemptAmount d) + intOf (taxableAmount d)))"
    proof
      fix t assume "t \<in> set (monthlyTotals ?res)"
      then have "t \<in> set ?ms" by simp
      from mem [OF this] obtain p where t: "t = ?G p" by (elim exE)
      show "taxExempt t = Finite (of_int (\<Sum>d\<leftarrow>inMonth (mt_year t) (mt_month t) ?ds.
                                               intOf (taxExemptAmount d)))
             \<and> taxable t = Finite (of_int (\<Sum>d\<leftarrow>inMonth (mt_year t) (mt_month t) ?ds.
                                               intOf (taxableAmount d)))
             \<and> total t = Finite (of_int (\<Sum>d\<leftarrow>inMonth (mt_year t) (mt_month t) ?ds.
                                               intOf (taxExemptAmount d) + intOf (taxableAmount d)))"
        unfolding t by (simp add: groupTotal_sel(1-4) g(1,2) tot)
    qed
    have e2: "y_taxExempt (yearlyTotal ?res) = Finite (of_int (\<Sum>d\<leftarrow>?ds. intOf (taxExemptAmount d)))"
      by (simp add: y(1))
    have e3: "y_taxable (yearlyTotal ?res) = Finite (of_int (\<Sum>d\<leftarrow>?ds. intOf (taxableAmount d)))"
      by (simp add: y(2))
    have "y_total (yearlyTotal ?res) = plusNum ?yE ?yT" by simp
    also have "\<dots> = plusNum (Finite (of_int (\<Sum>d\<leftarrow>?ds. intOf (taxExemptAmount d))))
                              (Finite (of_int (\<Sum>d\<leftarrow>?ds. intOf (taxableAmount d))))"
      by (simp only: y(1) y(2))
    also have "\<dots> = Finite (of_int (\<Sum>d\<leftarrow>?ds. intOf (taxExemptAmount d) + intOf (taxableAmount d)))"
      by (rule y(3))
    finally have e4: "y_total (yearlyTotal ?res)
              = Finite (of_int (\<Sum>d\<leftarrow>?ds. intOf (taxExemptAmount d) + intOf (taxableAmount d)))" .
    have "distinct ?ms" using dp by simp
    then have "(\<Sum>t\<leftarrow>?ms. intOf (total t)) = sum (\<lambda>t. intOf (total t)) (set ?ms)"
      by (rule sum_list_distinct_conv_sum_set)
    also have "\<dots> = sum (\<lambda>t. intOf (total t)) (set ?pushed)" by simp
    also have "\<dots> = (\<Sum>t\<leftarrow>?pushed. intOf (total t))"
      using dp by (rule sum_list_distinct_conv_sum_set [symmetric])
    also have "\<dots> = (\<Sum>p\<leftarrow>?ks. \<Sum>d\<leftarrow>inMonth (fst p) (snd p) ?ds.
                          intOf (taxExemptAmount d) + intOf (taxableAmount d))"
      by (simp add: comp_def tot)
    also have "\<dots> = (\<Sum>d\<leftarrow>?ds. intOf (taxExemptAmount d) + intOf (taxableAmount d))"
      by (rule totals_partition)
    finally have e5: "y_total (yearlyTotal ?res) = Finite (of_int (\<Sum>t\<leftarrow>monthlyTotals ?res. intOf (total t)))"
      using e4 by simp
    from e1 e2 e3 e4 e5 show "(\<forall>t\<in>set (monthlyTotals ?res).
               taxExempt t = Finite (of_int (\<Sum>d\<leftarrow>inMonth (mt_year t) (mt_month t) ?ds.
                                               intOf (taxExemptAmount d)))
             \<and> taxable t = Finite (of_int (\<Sum>d\<leftarrow>inMonth (mt_year t) (mt_month t) ?ds.
                                               intOf (taxableAmount d)))
             \<and> total t = Finite (of_int (\<Sum>d\<leftarrow>inMonth (mt_year t) (mt_month t) ?ds.
                                               intOf (taxExemptAmount d) + intOf (taxableAmount d))))
          \<and> y_taxExempt (yearlyTotal ?res) = Finite (of_int (\<Sum>d\<leftarrow>?ds. intOf (taxExemptAmount d)))
          \<and> y_taxable (yearlyTotal ?res) = Finite (of_int (\<Sum>d\<leftarrow>?ds. intOf (taxableAmount d)))
          \<and> y_total (yearlyTotal ?res)
              = Finite (of_int (\<Sum>d\<leftarrow>?ds. intOf (taxExemptAmount d) + intOf (taxableAmount d)))
          \<and> y_total (yearlyTotal ?res) = Finite (of_int (\<Sum>t\<leftarrow>monthlyTotals ?res. intOf (total t)))"
      by (intro conjI)
  qed
  have c0: "mallName ?res = sm_mallName md" by simp
  have s1: "sorted (map ?K (monthlyTotals ?res))" using c1 by simp
  have s2: "distinct (map ?K (monthlyTotals ?res))" using c2 by simp
  have s3: "?K ` set (monthlyTotals ?res) = (\<lambda>d. (year d, month d)) ` set ?ds" using c3 by simp
  have s4: "\<forall>t\<in>set (monthlyTotals ?res).
            taxExempt t = sumOf taxExemptAmount (inMonth (mt_year t) (mt_month t) ?ds)
          \<and> taxable t = sumOf taxableAmount (inMonth (mt_year t) (mt_month t) ?ds)
          \<and> total t = plusNum (taxExempt t) (taxable t)" using c4 by simp
  from eq c0 s1 s2 s3 s4 c5 c6 c7 c8 calculateTotals_testMall
  show ?thesis by (intro exI [of _ ?res] conjI)
qed

text \<open>
  The theorem at the example, whose amounts are whole and small: the January entry is in
  the list, and what it holds is the exact sum over the two January records.
\<close>

theorem calculateTotals_groups_sums_sorted_witness:
  "wholeAmounts (data testMall) \<and> magnitude (data testMall) \<le> 2 ^ 53
   \<and> (\<exists>res. calculateTotals testMall = Some res
      \<and> \<lparr> mt_month = 1, mt_year = 2024, taxExempt = Finite 3000000, taxable = Finite 1500000, total = Finite 4500000 \<rparr>
            \<in> set (monthlyTotals res)
      \<and> sumOf taxExemptAmount (inMonth 2024 1 (data testMall)) = Finite 3000000
      \<and> (\<Sum>d\<leftarrow>inMonth 2024 1 (data testMall). intOf (taxExemptAmount d)) = 3000000
      \<and> y_total (yearlyTotal res) = Finite (of_int (\<Sum>t\<leftarrow>monthlyTotals res. intOf (total t)))
      \<and> y_total (yearlyTotal res) = Finite 6750000)"
proof -
  let ?jan = "\<lparr> mt_month = 1, mt_year = 2024, taxExempt = Finite 3000000, taxable = Finite 1500000, total = Finite 4500000 \<rparr>"
  let ?feb = "\<lparr> mt_month = 2, mt_year = 2024, taxExempt = Finite 1500000, taxable = Finite 750000, total = Finite 2250000 \<rparr>"
  have w: "wholeAmounts (data testMall)" by (simp add: wholeAmounts_def testMall_def)
  have m: "magnitude (data testMall) \<le> 2 ^ 53" by (simp add: magnitude_def testMall_def)
  from calculateTotals_groups_sums_sorted [of testMall] obtain res where
    r: "calculateTotals testMall = Some res" and
    q: "\<forall>t\<in>set (monthlyTotals res).
            taxExempt t = sumOf taxExemptAmount (inMonth (mt_year t) (mt_month t) (data testMall))
          \<and> taxable t = sumOf taxableAmount (inMonth (mt_year t) (mt_month t) (data testMall))
          \<and> total t = plusNum (taxExempt t) (taxable t)" and
    x: "wholeAmounts (data testMall) \<and> magnitude (data testMall) \<le> 2 ^ 53 \<longrightarrow>
            (\<forall>t\<in>set (monthlyTotals res).
               taxExempt t = Finite (of_int (\<Sum>d\<leftarrow>inMonth (mt_year t) (mt_month t) (data testMall).
                                               intOf (taxExemptAmount d)))
             \<and> taxable t = Finite (of_int (\<Sum>d\<leftarrow>inMonth (mt_year t) (mt_month t) (data testMall).
                                               intOf (taxableAmount d)))
             \<and> total t = Finite (of_int (\<Sum>d\<leftarrow>inMonth (mt_year t) (mt_month t) (data testMall).
                                               intOf (taxExemptAmount d) + intOf (taxableAmount d))))
          \<and> y_taxExempt (yearlyTotal res) = Finite (of_int (\<Sum>d\<leftarrow>data testMall. intOf (taxExemptAmount d)))
          \<and> y_taxable (yearlyTotal res) = Finite (of_int (\<Sum>d\<leftarrow>data testMall. intOf (taxableAmount d)))
          \<and> y_total (yearlyTotal res)
              = Finite (of_int (\<Sum>d\<leftarrow>data testMall. intOf (taxExemptAmount d) + intOf (taxableAmount d)))
          \<and> y_total (yearlyTotal res) = Finite (of_int (\<Sum>t\<leftarrow>monthlyTotals res. intOf (total t)))" and
    c: "calculateTotals testMall = Some
          \<lparr> mallName = ascii ''Test Mall'', monthlyTotals = [?jan, ?feb],
            yearlyTotal = \<lparr> y_taxExempt = Finite 4500000, y_taxable = Finite 2250000, y_total = Finite 6750000 \<rparr> \<rparr>"
    by (elim exE conjE)
  from r c have ms: "monthlyTotals res = [?jan, ?feb]"
    and yt: "y_total (yearlyTotal res) = Finite 6750000" by auto
  have mem: "?jan \<in> set (monthlyTotals res)" by (simp add: ms)
  from q mem have
    "taxExempt ?jan = sumOf taxExemptAmount (inMonth (mt_year ?jan) (mt_month ?jan) (data testMall))
     \<and> taxable ?jan = sumOf taxableAmount (inMonth (mt_year ?jan) (mt_month ?jan) (data testMall))
     \<and> total ?jan = plusNum (taxExempt ?jan) (taxable ?jan)"
    by (rule bspec)
  then have a: "sumOf taxExemptAmount (inMonth 2024 1 (data testMall)) = Finite 3000000" by simp
  note xx = x [THEN mp, OF conjI [OF w m]]
  note e = xx [THEN conjunct1]
  note y = xx [THEN conjunct2, THEN conjunct2, THEN conjunct2, THEN conjunct2]
  from e mem have
    "taxExempt ?jan = Finite (of_int (\<Sum>d\<leftarrow>inMonth (mt_year ?jan) (mt_month ?jan) (data testMall).
                                               intOf (taxExemptAmount d)))
     \<and> taxable ?jan = Finite (of_int (\<Sum>d\<leftarrow>inMonth (mt_year ?jan) (mt_month ?jan) (data testMall).
                                               intOf (taxableAmount d)))
     \<and> total ?jan = Finite (of_int (\<Sum>d\<leftarrow>inMonth (mt_year ?jan) (mt_month ?jan) (data testMall).
                                               intOf (taxExemptAmount d) + intOf (taxableAmount d)))"
    by (rule bspec)
  then have "(of_int (\<Sum>d\<leftarrow>inMonth 2024 1 (data testMall). intOf (taxExemptAmount d)) :: rat) = of_int 3000000"
    by simp
  then have b: "(\<Sum>d\<leftarrow>inMonth 2024 1 (data testMall). intOf (taxExemptAmount d)) = 3000000"
    by (simp only: of_int_eq_iff)
  from r mem a b y yt have "calculateTotals testMall = Some res
      \<and> ?jan \<in> set (monthlyTotals res)
      \<and> sumOf taxExemptAmount (inMonth 2024 1 (data testMall)) = Finite 3000000
      \<and> (\<Sum>d\<leftarrow>inMonth 2024 1 (data testMall). intOf (taxExemptAmount d)) = 3000000
      \<and> y_total (yearlyTotal res) = Finite (of_int (\<Sum>t\<leftarrow>monthlyTotals res. intOf (total t)))
      \<and> y_total (yearlyTotal res) = Finite 6750000"
    by (intro conjI)
  then have "\<exists>res. calculateTotals testMall = Some res
      \<and> ?jan \<in> set (monthlyTotals res)
      \<and> sumOf taxExemptAmount (inMonth 2024 1 (data testMall)) = Finite 3000000
      \<and> (\<Sum>d\<leftarrow>inMonth 2024 1 (data testMall). intOf (taxExemptAmount d)) = 3000000
      \<and> y_total (yearlyTotal res) = Finite (of_int (\<Sum>t\<leftarrow>monthlyTotals res. intOf (total t)))
      \<and> y_total (yearlyTotal res) = Finite 6750000"
    by (rule exI [of _ res])
  with w m show ?thesis by (intro conjI)
qed

text \<open>
  Claim C4 as stated gives (6500000, 3250000, 9750000) for the yearly total of the three
  records; the code adds them up to (4500000, 2250000, 6750000).
\<close>

theorem calculateTotals_claimed_yearly_counterexample:
  "map_option yearlyTotal (calculateTotals testMall)
     = Some \<lparr> y_taxExempt = Finite 4500000, y_taxable = Finite 2250000, y_total = Finite 6750000 \<rparr>
   \<and> map_option yearlyTotal (calculateTotals testMall)
     \<noteq> Some \<lparr> y_taxExempt = Finite 6500000, y_taxable = Finite 3250000, y_total = Finite 9750000 \<rparr>"
  by (simp add: calculateTotals_testMall)

section \<open>Merged cells: what the loops do to the store\<close>

lemma readCell_writeCell:
  "readCell (writeCell row c v) c' = (if c' = c then v else readCell row c')"
  by (auto simp: readCell_def writeCell_def nth_append)

lemma length_writeCell: "length (writeCell row c v) = max (length row) (Suc c)"
  by (auto simp: writeCell_def)

lemma fillCell_fillRow: "fillCell value g h r c = h[g ! r := fillRow value (h ! (g ! r)) c]"
  by (simp add: fillCell_def fillRow_def)

lemma readCell_fillRow:
  "readCell (fillRow v row c) c' = (if c' = c \<and> \<not> truthy (readCell row c) then v else readCell row c')"
  by (simp add: fillRow_def readCell_writeCell)

lemma length_fillRow:
  "length (fillRow v row c) = (if c < length row then length row else Suc c)"
  by (auto simp: fillRow_def length_writeCell readCell_def)

lemma readCell_fill_cols:
  "readCell (foldl (fillRow v) row [a..<b]) c
     = (if a \<le> c \<and> c < b \<and> \<not> truthy (readCell row c) then v else readCell row c)"
proof (induction b)
  case 0
  then show ?case by simp
next
  case (Suc b)
  show ?case
  proof (cases "a \<le> b")
    case True
    then show ?thesis using Suc by (auto simp: readCell_fillRow less_Suc_eq)
  next
    case False
    then show ?thesis by auto
  qed
qed

lemma length_fill_cols:
  "length (foldl (fillRow v) row [a..<b]) = (if a < b then max (length row) b else length row)"
proof (induction b)
  case 0
  then show ?case by simp
next
  case (Suc b)
  show ?case
  proof (cases "a \<le> b")
    case True
    then show ?thesis using Suc by (auto simp: length_fillRow)
  next
    case False
    then show ?thesis by simp
  qed
qed

lemma fill_cols_store:
  "g ! r < length h \<Longrightarrow>
   foldl (\<lambda>h c. fillCell v g h r c) h cols = h[g ! r := foldl (fillRow v) (h ! (g ! r)) cols]"
proof (induction cols arbitrary: h)
  case Nil
  then show ?case by simp
next
  case (Cons c cols)
  let ?h1 = "fillCell v g h r c"
  have len: "g ! r < length ?h1" using Cons.prems by (simp add: fillCell_fillRow)
  have "foldl (\<lambda>h c. fillCell v g h r c) h (c # cols) = foldl (\<lambda>h c. fillCell v g h r c) ?h1 cols"
    by simp
  also have "\<dots> = ?h1[g ! r := foldl (fillRow v) (?h1 ! (g ! r)) cols]"
    using len by (rule Cons.IH)
  also have "\<dots> = h[g ! r := foldl (fillRow v) (h ! (g ! r)) (c # cols)]"
    using Cons.prems by (simp add: fillCell_fillRow)
  finally show ?case .
qed

lemma update_rows_length:
  "length (foldl (\<lambda>h r. h[g ! r := G h r]) h rs) = length h"
  by (induction rs arbitrary: h) simp_all

lemma update_rows_nth:
  "distinct (map (\<lambda>r. g ! r) rs) \<Longrightarrow> x < length h \<Longrightarrow>
   foldl (\<lambda>h r. h[g ! r := F (h ! (g ! r))]) h rs ! x
     = (if x \<in> (\<lambda>r. g ! r) ` set rs then F (h ! x) else h ! x)"
proof (induction rs arbitrary: h)
  case Nil
  then show ?case by simp
next
  case (Cons r rs)
  let ?h1 = "h[g ! r := F (h ! (g ! r))]"
  have d: "distinct (map (\<lambda>r. g ! r) rs)" and nin: "g ! r \<notin> (\<lambda>r. g ! r) ` set rs"
    using Cons.prems(1) by simp_all
  have x: "x < length ?h1" using Cons.prems(2) by simp
  have "foldl (\<lambda>h r. h[g ! r := F (h ! (g ! r))]) h (r # rs) ! x
      = foldl (\<lambda>h r. h[g ! r := F (h ! (g ! r))]) ?h1 rs ! x" by simp
  also have "\<dots> = (if x \<in> (\<lambda>r. g ! r) ` set rs then F (?h1 ! x) else ?h1 ! x)"
    using d x by (rule Cons.IH)
  also have "\<dots> = (if x \<in> (\<lambda>r. g ! r) ` set (r # rs) then F (h ! x) else h ! x)"
  proof (cases "x = g ! r")
    case True
    with nin Cons.prems(2) show ?thesis by simp
  next
    case False
    then have "?h1 ! x = h ! x" by simp
    with False show ?thesis by simp
  qed
  finally show ?case .
qed

lemma fill_rows_store:
  "allocated h g \<Longrightarrow> length h' = length h \<Longrightarrow> set rs \<subseteq> {..<length g} \<Longrightarrow>
   foldl (\<lambda>h r. foldl (\<lambda>h c. fillCell v g h r c) h cols) h' rs
     = foldl (\<lambda>h r. h[g ! r := foldl (fillRow v) (h ! (g ! r)) cols]) h' rs"
proof (induction rs arbitrary: h')
  case Nil
  then show ?case by simp
next
  case (Cons r rs)
  have "r < length g" using Cons.prems(3) by simp
  then have a: "g ! r < length h'"
    using Cons.prems(1,2) by (simp add: allocated_def list_all_length)
  show ?case
    using Cons.IH [of "h'[g ! r := foldl (fillRow v) (h' ! (g ! r)) cols]"] Cons.prems
    by (simp add: fill_cols_store [OF a])
qed

lemma applyMerge_rows:
  "allocated h g \<Longrightarrow>
   applyMerge g h m
     = foldl (\<lambda>h' r. h'[g ! r := foldl (fillRow (cellAt h g (s_r m) (s_c m))) (h' ! (g ! r))
                                     [s_c m ..< Suc (e_c m)]])
         h (mergeRows g m)"
  unfolding applyMerge_def Let_def mergeRows_def
  by (rule fill_rows_store) auto

lemma length_applyMerge: "allocated h g \<Longrightarrow> length (applyMerge g h m) = length h"
  by (simp add: applyMerge_rows update_rows_length del: upt_Suc)

lemma applyMerge_nth:
  assumes "allocated h g" "distinct g" "x < length h"
  shows "applyMerge g h m ! x
     = (if x \<in> (\<lambda>r. g ! r) ` set (mergeRows g m)
        then foldl (fillRow (cellAt h g (s_r m) (s_c m))) (h ! x) [s_c m ..< Suc (e_c m)]
        else h ! x)"
proof -
  have "distinct (map (\<lambda>r. g ! r) (mergeRows g m))"
    using assms(2) by (auto simp: distinct_map mergeRows_def inj_on_def nth_eq_iff_index_eq)
  from update_rows_nth [OF this assms(3),
      of "\<lambda>row. foldl (fillRow (cellAt h g (s_r m) (s_c m))) row [s_c m ..< Suc (e_c m)]"]
  show ?thesis
    by (simp add: applyMerge_rows [OF assms(1)] del: upt_Suc)
qed

lemma row_in_mergeRows:
  "distinct g \<Longrightarrow> r < length g \<Longrightarrow>
   g ! r \<in> (\<lambda>r. g ! r) ` set (mergeRows g m) \<longleftrightarrow> s_r m \<le> r \<and> r \<le> e_r m"
  by (auto simp: mergeRows_def nth_eq_iff_index_eq)

lemma applyMerge_frame:
  "allocated h g \<Longrightarrow> distinct g \<Longrightarrow> x < length h \<Longrightarrow> x \<notin> set g \<Longrightarrow>
   applyMerge g h m ! x = h ! x"
  by (auto simp: applyMerge_nth mergeRows_def simp del: upt_Suc)

lemma cellAt_applyMerge:
  assumes "allocated h g" "distinct g" "r < length g"
  shows "cellAt (applyMerge g h m) g r c
     = (if inRect m r c \<and> \<not> truthy (cellAt h g r c) then cellAt h g (s_r m) (s_c m)
        else cellAt h g r c)"
proof -
  have a: "g ! r < length h" using assms(1,3) by (simp add: allocated_def list_all_length)
  show ?thesis
    using assms(3)
    by (simp add: cellAt_def [of _ _ r] applyMerge_nth [OF assms(1,2) a] row_in_mergeRows [OF assms(2,3)]
          readCell_fill_cols inRect_def del: upt_Suc)
qed

lemma rowLength_applyMerge:
  assumes "allocated h g" "distinct g" "r < length g"
  shows "length (applyMerge g h m ! (g ! r))
     = (if s_r m \<le> r \<and> r \<le> e_r m \<and> s_c m \<le> e_c m
        then max (length (h ! (g ! r))) (Suc (e_c m)) else length (h ! (g ! r)))"
proof -
  have a: "g ! r < length h" using assms(1,3) by (simp add: allocated_def list_all_length)
  show ?thesis
    by (simp add: applyMerge_nth [OF assms(1,2) a] row_in_mergeRows [OF assms(2,3)] length_fill_cols
          del: upt_Suc)
qed

lemma allocated_applyMerge: "allocated h g \<Longrightarrow> allocated (applyMerge g h m) g"
  by (simp add: allocated_def length_applyMerge)

lemma inRect_overlap: "inRect m r c \<Longrightarrow> inRect m' r c \<Longrightarrow> overlap m m'"
  by (auto simp: inRect_def overlap_def)

lemma inRect_origin: "inRect m r c \<Longrightarrow> inRect m (s_r m) (s_c m)"
  by (auto simp: inRect_def)

lemma regionOf_Cons:
  "regionOf (m # ms) r c = (if inRect m r c then Some m else regionOf ms r c)"
  by (simp add: regionOf_def)

lemma regionOf_None: "regionOf ms r c = None \<longleftrightarrow> (\<forall>m\<in>set ms. \<not> inRect m r c)"
  by (auto simp: regionOf_def find_None_iff)

lemma regionOf_Some: "regionOf ms r c = Some m \<Longrightarrow> m \<in> set ms \<and> inRect m r c"
  by (auto simp: regionOf_def find_Some_iff)

lemma length_merges: "allocated h g \<Longrightarrow> length (foldl (applyMerge g) h ms) = length h"
  by (induction ms arbitrary: h) (simp_all add: length_applyMerge allocated_applyMerge)

lemma allocated_merges: "allocated h g \<Longrightarrow> allocated (foldl (applyMerge g) h ms) g"
  by (simp add: allocated_def length_merges)

lemma merges_frame:
  "allocated h g \<Longrightarrow> distinct g \<Longrightarrow> x < length h \<Longrightarrow> x \<notin> set g \<Longrightarrow>
   foldl (applyMerge g) h ms ! x = h ! x"
proof (induction ms arbitrary: h)
  case Nil
  then show ?case by simp
next
  case (Cons m ms)
  have "foldl (applyMerge g) (applyMerge g h m) ms ! x = applyMerge g h m ! x"
    using Cons.prems by (intro Cons.IH) (simp_all add: allocated_applyMerge length_applyMerge)
  then show ?case using Cons.prems by (simp add: applyMerge_frame)
qed

lemma cellAt_merges:
  assumes "distinct g" "r < length g"
  shows "allocated h g \<Longrightarrow> nonOverlapping ms \<Longrightarrow>
     cellAt (foldl (applyMerge g) h ms) g r c
       = (case regionOf ms r c of
            None \<Rightarrow> cellAt h g r c
          | Some m \<Rightarrow> if truthy (cellAt h g r c) then cellAt h g r c
                      else cellAt h g (s_r m) (s_c m))"
proof (induction ms arbitrary: h)
  case Nil
  then show ?case by (simp add: regionOf_def)
next
  case (Cons m ms)
  let ?h1 = "applyMerge g h m"
  have al: "allocated ?h1 g" using Cons.prems(1) by (rule allocated_applyMerge)
  have no: "nonOverlapping ms" and sep: "\<forall>m'\<in>set ms. \<not> overlap m m'"
    using Cons.prems(2) by (simp_all add: list_all_iff)
  have IH: "cellAt (foldl (applyMerge g) ?h1 ms) g r c
       = (case regionOf ms r c of
            None \<Rightarrow> cellAt ?h1 g r c
          | Some m' \<Rightarrow> if truthy (cellAt ?h1 g r c) then cellAt ?h1 g r c
                      else cellAt ?h1 g (s_r m') (s_c m'))"
    using al no by (rule Cons.IH)
  have here: "cellAt ?h1 g r c
     = (if inRect m r c \<and> \<not> truthy (cellAt h g r c) then cellAt h g (s_r m) (s_c m)
        else cellAt h g r c)"
    using Cons.prems(1) assms by (rule cellAt_applyMerge)
  show ?case
  proof (cases "inRect m r c")
    case True
    have "\<forall>m'\<in>set ms. \<not> inRect m' r c"
      using True sep inRect_overlap by blast
    then have "regionOf ms r c = None" by (simp add: regionOf_None)
    with True IH here show ?thesis by (simp add: regionOf_Cons)
  next
    case False
    show ?thesis
    proof (cases "regionOf ms r c")
      case None
      with False IH here show ?thesis by (simp add: regionOf_Cons)
    next
      case (Some m')
      then have m': "m' \<in> set ms" "inRect m' r c" using regionOf_Some by blast+
      have o: "inRect m' (s_r m') (s_c m')" using m'(2) by (rule inRect_origin)
      have "\<not> overlap m m'" using sep m'(1) by blast
      then have notin: "\<not> inRect m (s_r m') (s_c m')" using o inRect_overlap by blast
      have "s_r m' \<le> r" using m'(2) by (simp add: inRect_def)
      then have "s_r m' < length g" using assms(2) by simp
      with Cons.prems(1) assms(1)
      have "cellAt ?h1 g (s_r m') (s_c m')
         = (if inRect m (s_r m') (s_c m') \<and> \<not> truthy (cellAt h g (s_r m') (s_c m'))
            then cellAt h g (s_r m) (s_c m) else cellAt h g (s_r m') (s_c m'))"
        by (rule cellAt_applyMerge)
      with notin have "cellAt ?h1 g (s_r m') (s_c m') = cellAt h g (s_r m') (s_c m')" by simp
      with False Some IH here show ?thesis by (simp add: regionOf_Cons)
    qed
  qed
qed

lemma widened_max: "widened ms r n = max n (widened ms r 0)"
  unfolding widened_def
proof (induction ms arbitrary: n)
  case Nil
  then show ?case by simp
next
  case (Cons m ms)
  show ?case
    using Cons [of "max n (Suc (e_c m))"] Cons [of "Suc (e_c m)"] Cons [of n] Cons [of 0]
    by (simp add: max.assoc)
qed

lemma widened_idem: "widened ms r (widened ms r n) = widened ms r n"
  using widened_max [of ms r "widened ms r n"] widened_max [of ms r n] by simp

lemma rowLength_merges:
  assumes "distinct g" "r < length g"
  shows "allocated h g \<Longrightarrow>
     length (foldl (applyMerge g) h ms ! (g ! r)) = widened ms r (length (h ! (g ! r)))"
proof (induction ms arbitrary: h)
  case Nil
  then show ?case by (simp add: widened_def)
next
  case (Cons m ms)
  have "length (foldl (applyMerge g) (applyMerge g h m) ms ! (g ! r))
      = widened ms r (length (applyMerge g h m ! (g ! r)))"
    using Cons.prems by (intro Cons.IH allocated_applyMerge)
  then show ?case
    using rowLength_applyMerge [OF Cons.prems assms, of m] by (simp add: widened_def)
qed

lemma copyRows_facts:
  assumes "copyRows h dat = (h1, pd)"
  shows "length pd = length dat" "distinct pd" "allocated h1 pd"
    "length h1 = length h + length dat"
    "\<And>x. x < length h \<Longrightarrow> x \<notin> set pd \<and> h1 ! x = h ! x"
    "\<And>r. r < length dat \<Longrightarrow> pd ! r = length h + r \<and> h1 ! (pd ! r) = h ! (dat ! r)"
    "\<And>r c. cellAt h1 pd r c = cellAt h dat r c"
  using assms
  by (auto simp: copyRows_def rowsOf_def allocated_def list_all_length nth_append cellAt_def)

lemma overlap_sym: "overlap m m' \<Longrightarrow> overlap m' m"
  by (auto simp: overlap_def)

lemma nonOverlapping_unique:
  "nonOverlapping ms \<Longrightarrow> m \<in> set ms \<Longrightarrow> m' \<in> set ms \<Longrightarrow> overlap m m' \<Longrightarrow> m = m'"
proof (induction ms)
  case Nil
  then show ?case by simp
next
  case (Cons a ms)
  then show ?case using overlap_sym by (auto simp: list_all_iff)
qed

lemma regionOf_origin:
  assumes "nonOverlapping ms" "regionOf ms r c = Some m"
  shows "regionOf ms (s_r m) (s_c m) = Some m"
proof -
  from assms(2) have m: "m \<in> set ms" "inRect m r c" using regionOf_Some by blast+
  then have o: "inRect m (s_r m) (s_c m)" using inRect_origin by blast
  show ?thesis
  proof (cases "regionOf ms (s_r m) (s_c m)")
    case None
    with m(1) o show ?thesis by (simp add: regionOf_None)
  next
    case (Some m')
    then have m': "m' \<in> set ms" "inRect m' (s_r m) (s_c m)" using regionOf_Some by blast+
    then have "overlap m m'" using o inRect_overlap by blast
    with assms(1) m(1) m'(1) have "m = m'" by (rule nonOverlapping_unique)
    with Some show ?thesis by simp
  qed
qed

lemma processMergedCells_shape:
  assumes "allocated h dat" "nonOverlapping merges" "processMergedCells h dat merges = (h', out)"
  shows "length out = length dat" "distinct out" "allocated h' out"
    "list_all (\<lambda>a. length h \<le> a) out"
    "\<And>x. x < length h \<Longrightarrow> h' ! x = h ! x"
    "\<And>r c. r < length dat \<Longrightarrow> cellAt h' out r c
       = (case regionOf merges r c of
            None \<Rightarrow> cellAt h dat r c
          | Some m \<Rightarrow> if truthy (cellAt h dat r c) then cellAt h dat r c
                      else cellAt h dat (s_r m) (s_c m))"
    "\<And>r. r < length dat \<Longrightarrow>
       length (h' ! (out ! r)) = widened merges r (length (h ! (dat ! r)))"
proof -
  obtain h1 pd where cp: "copyRows h dat = (h1, pd)" by (cases "copyRows h dat")
  note f = copyRows_facts [OF cp]
  from assms(3) cp have h': "h' = foldl (applyMerge pd) h1 merges" and out: "out = pd"
    by (auto simp: processMergedCells_def)
  show "length out = length dat" "distinct out" using f(1,2) out by simp_all
  show "allocated h' out" unfolding h' out using f(3) by (rule allocated_merges)
  show "list_all (\<lambda>a. length h \<le> a) out"
    using cp out by (auto simp: copyRows_def list_all_iff)
  show "h' ! x = h ! x" if "x < length h" for x
  proof -
    from f(5) [OF that] have "x \<notin> set pd" "h1 ! x = h ! x" by simp_all
    moreover have "x < length h1" using that f(4) by simp
    ultimately show ?thesis unfolding h' using f(2,3) by (simp add: merges_frame)
  qed
  show "cellAt h' out r c
       = (case regionOf merges r c of
            None \<Rightarrow> cellAt h dat r c
          | Some m \<Rightarrow> if truthy (cellAt h dat r c) then cellAt h dat r c
                      else cellAt h dat (s_r m) (s_c m))" if "r < length dat" for r c
  proof -
    have "r < length pd" using that f(1) by simp
    from cellAt_merges [OF f(2) this f(3) assms(2), of c] show ?thesis
      unfolding h' out by (simp add: f(7) split: option.split)
  qed
  show "length (h' ! (out ! r)) = widened merges r (length (h ! (dat ! r)))" if "r < length dat" for r
  proof -
    have "r < length pd" using that f(1) by simp
    from f(6) [OF that] have "h1 ! (pd ! r) = h ! (dat ! r)" by (rule conjunct2)
    with rowLength_merges [OF f(2) \<open>r < length pd\<close> f(3), of merges] show ?thesis
      unfolding h' out by (simp only:)
  qed
qed

text \<open>
  Claim C2, as amended. For a grid whose rows are allocated and regions that do not overlap,
  \<open>processMergedCells\<close> returns a grid of newly allocated rows, as many as the input
  has. A cell of a row of the grid that lies in the rectangle of a region and whose value
  is falsy (absent, \<open>null\<close>, the empty string, and also \<open>0\<close>, \<open>NaN\<close> and \<open>false\<close>) holds
  the value the origin cell of the region had; every other cell holds what it held. No
  row is added below the grid, so the part of a rectangle below the last row is not
  filled. The rows of the input grid are what they were.
\<close>

theorem processMergedCells_fills_regions:
  assumes "allocated h dat" and "nonOverlapping merges"
    and "processMergedCells h dat merges = (h', out)"
  shows "length out = length dat
     \<and> distinct out \<and> list_all (\<lambda>a. length h \<le> a) out
     \<and> rowsOf h' dat = rowsOf h dat
     \<and> (\<forall>r<length dat. \<forall>c.
           cellAt h' out r c
             = (case regionOf merges r c of
                  None \<Rightarrow> cellAt h dat r c
                | Some m \<Rightarrow> if truthy (cellAt h dat r c) then cellAt h dat r c
                            else cellAt h dat (s_r m) (s_c m)))"
proof -
  note s = processMergedCells_shape [OF assms]
  have "rowsOf h' dat = rowsOf h dat"
    unfolding rowsOf_def
  proof (rule map_cong [OF refl])
    fix a assume "a \<in> set dat"
    then have "a < length h" using assms(1) by (simp add: allocated_def list_all_iff)
    then show "h' ! a = h ! a" by (rule s(5))
  qed
  with s(1,2,4,6) show ?thesis by simp
qed

text \<open>
  Claim C9, as amended. For regions that do not overlap, resolving the merges of a grid
  that was already resolved with the same regions yields the same rows, cell for cell.
\<close>

theorem processMergedCells_idempotent:
  assumes "allocated h dat" and "nonOverlapping merges"
    and "processMergedCells h dat merges = (h1, g1)"
    and "processMergedCells h1 g1 merges = (h2, g2)"
  shows "rowsOf h2 g2 = rowsOf h1 g1"
proof -
  note a = processMergedCells_shape [OF assms(1,2,3)]
  note b = processMergedCells_shape [OF a(3) assms(2,4)]
  have len: "length g2 = length g1" using b(1) .
  have rows: "h2 ! (g2 ! r) = h1 ! (g1 ! r)" if r: "r < length dat" for r
  proof (rule nth_equalityI)
    have r1: "r < length g1" using r a(1) by simp
    show l: "length (h2 ! (g2 ! r)) = length (h1 ! (g1 ! r))"
      using b(7) [OF r1] a(7) [OF r] by (simp add: widened_idem)
    fix c assume c: "c < length (h2 ! (g2 ! r))"
    have r2: "r < length g2" using r1 len by simp
    have "h2 ! (g2 ! r) ! c = cellAt h2 g2 r c" using c r2 by (simp add: cellAt_def readCell_def)
    also have "\<dots> = (case regionOf merges r c of
            None \<Rightarrow> cellAt h1 g1 r c
          | Some m \<Rightarrow> if truthy (cellAt h1 g1 r c) then cellAt h1 g1 r c
                      else cellAt h1 g1 (s_r m) (s_c m))"
      using r1 by (rule b(6))
    also have "\<dots> = cellAt h1 g1 r c"
    proof (cases "regionOf merges r c")
      case None
      then show ?thesis by simp
    next
      case (Some m)
      have o: "regionOf merges (s_r m) (s_c m) = Some m" using assms(2) Some by (rule regionOf_origin)
      have "inRect m r c" using Some regionOf_Some by blast
      then have "s_r m \<le> r" by (simp add: inRect_def)
      then have sr: "s_r m < length dat" using r by simp
      have here: "cellAt h1 g1 r c = (if truthy (cellAt h dat r c) then cellAt h dat r c
                      else cellAt h dat (s_r m) (s_c m))"
        using a(6) [OF r, of c] Some by simp
      have orig: "cellAt h1 g1 (s_r m) (s_c m) = cellAt h dat (s_r m) (s_c m)"
        using a(6) [OF sr, of "s_c m"] o by simp
      show ?thesis using Some here orig by simp
    qed
    also have "\<dots> = h1 ! (g1 ! r) ! c" using c l r1 by (simp add: cellAt_def readCell_def)
    finally show "h2 ! (g2 ! r) ! c = h1 ! (g1 ! r) ! c" .
  qed
  show ?thesis
    unfolding rowsOf_def
  proof (rule nth_equalityI)
    show "length (map ((!) h2) g2) = length (map ((!) h1) g1)" using len by simp
    fix r assume "r < length (map ((!) h2) g2)"
    then have "r < length dat" using len a(1) by simp
    from rows [OF this] this show "map ((!) h2) g2 ! r = map ((!) h1) g1 ! r"
      using len a(1) by simp
  qed
qed

lemma merged_block:
  "processMergedCells
      [[Str (ascii ''a''), Undefined, Str (ascii ''b'')], [Null, Str [], Undefined]] [0, 1]
      [region 0 0 1 1]
   = ([[Str (ascii ''a''), Undefined, Str (ascii ''b'')], [Null, Str [], Undefined],
       [Str (ascii ''a''), Str (ascii ''a''), Str (ascii ''b'')],
       [Str (ascii ''a''), Str (ascii ''a''), Undefined]], [2, 3])"
  unfolding region_def ascii_def by code_simp

lemma merged_block_again:
  "processMergedCells
      [[Str (ascii ''a''), Undefined, Str (ascii ''b'')], [Null, Str [], Undefined],
       [Str (ascii ''a''), Str (ascii ''a''), Str (ascii ''b'')],
       [Str (ascii ''a''), Str (ascii ''a''), Undefined]] [2, 3]
      [region 0 0 1 1]
   = ([[Str (ascii ''a''), Undefined, Str (ascii ''b'')], [Null, Str [], Undefined],
       [Str (ascii ''a''), Str (ascii ''a''), Str (ascii ''b'')],
       [Str (ascii ''a''), Str (ascii ''a''), Undefined],
       [Str (ascii ''a''), Str (ascii ''a''), Str (ascii ''b'')],
       [Str (ascii ''a''), Str (ascii ''a''), Undefined]], [4, 5])"
  unfolding region_def ascii_def by code_simp

lemma block_input_ok:
  "allocated [[Str (ascii ''a''), Undefined, Str (ascii ''b'')], [Null, Str [], Undefined]] [0, 1]"
  "nonOverlapping [region 0 0 1 1]"
  by (simp_all add: allocated_def)

text \<open>
  The theorem of C2 on a two-row grid with one region over its first two columns: the
  three falsy cells of the block take the origin's value, the cell outside keeps its own.
\<close>

theorem processMergedCells_fills_regions_witness:
  "allocated [[Str (ascii ''a''), Undefined, Str (ascii ''b'')], [Null, Str [], Undefined]] [0, 1]
   \<and> nonOverlapping [region 0 0 1 1]
   \<and> rowsOf [[Str (ascii ''a''), Undefined, Str (ascii ''b'')], [Null, Str [], Undefined],
               [Str (ascii ''a''), Str (ascii ''a''), Str (ascii ''b'')],
               [Str (ascii ''a''), Str (ascii ''a''), Undefined]] [0, 1]
       = [[Str (ascii ''a''), Undefined, Str (ascii ''b'')], [Null, Str [], Undefined]]
   \<and> cellAt [[Str (ascii ''a''), Undefined, Str (ascii ''b'')], [Null, Str [], Undefined],
               [Str (ascii ''a''), Str (ascii ''a''), Str (ascii ''b'')],
               [Str (ascii ''a''), Str (ascii ''a''), Undefined]] [2, 3] 1 1
       = Str (ascii ''a'')
   \<and> cellAt [[Str (ascii ''a''), Undefined, Str (ascii ''b'')], [Null, Str [], Undefined],
               [Str (ascii ''a''), Str (ascii ''a''), Str (ascii ''b'')],
               [Str (ascii ''a''), Str (ascii ''a''), Undefined]] [2, 3] 0 2
       = Str (ascii ''b'')"
proof -
  let ?h = "[[Str (ascii ''a''), Undefined, Str (ascii ''b'')], [Null, Str [], Undefined]]"
  let ?h' = "[[Str (ascii ''a''), Undefined, Str (ascii ''b'')], [Null, Str [], Undefined],
               [Str (ascii ''a''), Str (ascii ''a''), Str (ascii ''b'')],
               [Str (ascii ''a''), Str (ascii ''a''), Undefined]]"
  note t = processMergedCells_fills_regions [OF block_input_ok merged_block]
  from t have rows: "rowsOf ?h' [0, 1] = rowsOf ?h [0, 1]" by (elim conjE)
  from t have cells: "\<forall>r<length [0::nat, 1]. \<forall>c.
           cellAt ?h' [2, 3] r c
             = (case regionOf [region 0 0 1 1] r c of
                  None \<Rightarrow> cellAt ?h [0, 1] r c
                | Some m \<Rightarrow> if truthy (cellAt ?h [0, 1] r c) then cellAt ?h [0, 1] r c
                            else cellAt ?h [0, 1] (s_r m) (s_c m))"
    by (elim conjE)
  have "(case regionOf [region 0 0 1 1] 1 1 of
                  None \<Rightarrow> cellAt ?h [0, 1] 1 1
                | Some m \<Rightarrow> if truthy (cellAt ?h [0, 1] 1 1) then cellAt ?h [0, 1] 1 1
                            else cellAt ?h [0, 1] (s_r m) (s_c m)) = Str (ascii ''a'')"
    by (simp add: regionOf_def region_def inRect_def cellAt_def readCell_def)
  moreover have "(1::nat) < length [0::nat, 1]" by simp
  ultimately have c11: "cellAt ?h' [2, 3] 1 1 = Str (ascii ''a'')"
    using cells [rule_format, of 1 1] by (simp only:)
  have "(case regionOf [region 0 0 1 1] 0 2 of
                  None \<Rightarrow> cellAt ?h [0, 1] 0 2
                | Some m \<Rightarrow> if truthy (cellAt ?h [0, 1] 0 2) then cellAt ?h [0, 1] 0 2
                            else cellAt ?h [0, 1] (s_r m) (s_c m)) = Str (ascii ''b'')"
    by (simp add: regionOf_def region_def inRect_def cellAt_def readCell_def)
  moreover have "(0::nat) < length [0::nat, 1]" by simp
  ultimately have c02: "cellAt ?h' [2, 3] 0 2 = Str (ascii ''b'')"
    using cells [rule_format, of 0 2] by (simp only:)
  from rows have "rowsOf ?h' [0, 1] = ?h" by (simp add: rowsOf_def)
  with c11 c02 block_input_ok show ?thesis by (intro conjI)
qed

text \<open>
  Claim C2 as stated fails where a rectangle reaches below the last row, and where a cell
  holds the number \<open>0\<close>: the region from (0,0) to (1,0) on the one-row grid
  \<open>[["a"]]\<close> leaves the grid with one row, so that the cell (1,0) of the rectangle
  is still absent; and the region from (0,0) to (0,1) on \<open>[["a", 0]]\<close> overwrites
  the explicit \<open>0\<close> with \<open>"a"\<close>.
\<close>

theorem processMergedCells_as_stated_counterexample:
  "processMergedCells [[Str (ascii ''a'')]] [0] [region 0 0 1 0]
     = ([[Str (ascii ''a'')], [Str (ascii ''a'')]], [1])
   \<and> inRect (region 0 0 1 0) 1 0
   \<and> cellAt [[Str (ascii ''a'')], [Str (ascii ''a'')]] [1] 1 0 = Undefined
   \<and> cellAt [[Str (ascii ''a'')], [Str (ascii ''a'')]] [1] 1 0
       \<noteq> cellAt [[Str (ascii ''a'')]] [0] 0 0
   \<and> processMergedCells [[Str (ascii ''a''), Num (Finite 0)]] [0] [region 0 0 0 1]
     = ([[Str (ascii ''a''), Num (Finite 0)], [Str (ascii ''a''), Str (ascii ''a'')]], [1])"
  unfolding region_def ascii_def by code_simp

text \<open>
  The theorem of C9 on the same grid: the second pass allocates two more rows, and they
  hold what the rows of the first pass hold.
\<close>

theorem processMergedCells_idempotent_witness:
  "allocated [[Str (ascii ''a''), Undefined, Str (ascii ''b'')], [Null, Str [], Undefined]] [0, 1]
   \<and> nonOverlapping [region 0 0 1 1]
   \<and> rowsOf [[Str (ascii ''a''), Undefined, Str (ascii ''b'')], [Null, Str [], Undefined],
               [Str (ascii ''a''), Str (ascii ''a''), Str (ascii ''b'')],
               [Str (ascii ''a''), Str (ascii ''a''), Undefined],
               [Str (ascii ''a''), Str (ascii ''a''), Str (ascii ''b'')],
               [Str (ascii ''a''), Str (ascii ''a''), Undefined]] [4, 5]
       = rowsOf [[Str (ascii ''a''), Undefined, Str (ascii ''b'')], [Null, Str [], Undefined],
               [Str (ascii ''a''), Str (ascii ''a''), Str (ascii ''b'')],
               [Str (ascii ''a''), Str (ascii ''a''), Undefined]] [2, 3]"
  using processMergedCells_idempotent [OF block_input_ok merged_block merged_block_again]
    block_input_ok
  by (intro conjI)

text \<open>
  Claim C9 as stated fails for regions that overlap. With the regions (0,1)-(0,2) and
  (0,0)-(0,1) on the row \<open>["a", , ]\<close>, the first pass fills the middle cell from
  the second region, after the first region has already copied its then empty origin;
  the second pass finds the middle cell filled and copies it to the right.
\<close>

theorem processMergedCells_overlap_counterexample:
  "processMergedCells [[Str (ascii ''a''), Undefined, Undefined]] [0]
      [region 0 1 0 2, region 0 0 0 1]
     = ([[Str (ascii ''a''), Undefined, Undefined],
         [Str (ascii ''a''), Str (ascii ''a''), Undefined]], [1])
   \<and> processMergedCells
        [[Str (ascii ''a''), Undefined, Undefined],
         [Str (ascii ''a''), Str (ascii ''a''), Undefined]] [1]
        [region 0 1 0 2, region 0 0 0 1]
     = ([[Str (ascii ''a''), Undefined, Undefined],
         [Str (ascii ''a''), Str (ascii ''a''), Undefined],
         [Str (ascii ''a''), Str (ascii ''a''), Str (ascii ''a'')]], [2])
   \<and> rowsOf [[Str (ascii ''a''), Undefined, Undefined],
               [Str (ascii ''a''), Str (ascii ''a''), Undefined],
               [Str (ascii ''a''), Str (ascii ''a''), Str (ascii ''a'')]] [2]
       \<noteq> rowsOf [[Str (ascii ''a''), Undefined, Undefined],
                   [Str (ascii ''a''), Str (ascii ''a''), Undefined]] [1]"
  unfolding region_def ascii_def by code_simp

end
